theory Spec2Isabelle
  imports Complex_Main "HOL-Library.Char_ord" "HOL-Library.List_Lexorder"
begin

section \<open>Python primitives used by the sources\<close>

text \<open>
  Python slices clamp their bounds: a negative bound counts from the end of the sequence
  and a bound beyond either end is cut to that end. \<open>slice_bound i n\<close> is the position a
  bound \<open>i\<close> denotes in a sequence of length \<open>n\<close>. In particular \<open>xs[-0:]\<close> is
  \<open>xs[0:]\<close>, the whole sequence.
\<close>

definition slice_bound :: "int \<Rightarrow> nat \<Rightarrow> nat" where
  "slice_bound i n = (if i < 0 then nat (int n + i) else min (nat i) n)"

definition slice_from :: "'a list \<Rightarrow> int \<Rightarrow> 'a list" where
  "slice_from xs i = drop (slice_bound i (length xs)) xs"

definition slice_upto :: "'a list \<Rightarrow> int \<Rightarrow> 'a list" where
  "slice_upto xs j = take (slice_bound j (length xs)) xs"

definition slice :: "'a list \<Rightarrow> int \<Rightarrow> int \<Rightarrow> 'a list" where
  "slice xs i j =
     take (slice_bound j (length xs) - slice_bound i (length xs))
          (drop (slice_bound i (length xs)) xs)"

text \<open>
  \<open>str.strip()\<close>, \<open>str.split()\<close>, \<open>str.lower()\<close> and \<open>str.find()\<close> on 8-bit characters.
  The white space of \<open>str.isspace\<close> in that range is 9..13, 28..32, 0x85 and 0xA0; the
  cased letters are A..Z and the Latin-1 capitals 0xC0..0xDE without 0xD7.
\<close>

definition is_space :: "char \<Rightarrow> bool" where
  "is_space c = (let n = of_char c :: nat in
     (9 \<le> n \<and> n \<le> 13) \<or> (28 \<le> n \<and> n \<le> 32) \<or> n = 133 \<or> n = 160)"

definition lstrip :: "string \<Rightarrow> string" where
  "lstrip s = dropWhile is_space s"

definition rstrip :: "string \<Rightarrow> string" where
  "rstrip s = rev (dropWhile is_space (rev s))"

definition strip :: "string \<Rightarrow> string" where
  "strip s = rstrip (lstrip s)"

fun split_words :: "string \<Rightarrow> string \<Rightarrow> string list" where
  "split_words [] w = (if w = [] then [] else [w])"
| "split_words (c # cs) w =
     (if is_space c then (if w = [] then split_words cs [] else w # split_words cs [])
      else split_words cs (w @ [c]))"

definition split :: "string \<Rightarrow> string list" where
  "split s = split_words s []"

definition lower_char :: "char \<Rightarrow> char" where
  "lower_char c = (let n = of_char c :: nat in
     if (65 \<le> n \<and> n \<le> 90) \<or> (192 \<le> n \<and> n \<le> 222 \<and> n \<noteq> 215)
     then char_of (n + 32) else c)"

definition lower :: "string \<Rightarrow> string" where
  "lower s = map lower_char s"

fun find_from :: "string \<Rightarrow> string \<Rightarrow> nat \<Rightarrow> int" where
  "find_from sub [] i = (if sub = [] then int i else - 1)"
| "find_from sub (c # cs) i =
     (if take (length sub) (c # cs) = sub then int i else find_from sub cs (Suc i))"

definition find :: "string \<Rightarrow> string \<Rightarrow> int" where
  "find s sub = find_from sub s 0"

section \<open>Conversation cache (\<open>ConversationManager\<close>)\<close>

record message =
  role :: string
  content :: string
  timestamp :: real

record conversation_manager =
  messages :: "message list"
  max_messages :: int

definition is_system :: "message \<Rightarrow> bool" where
  "is_system msg = (role msg = ''system'')"

definition trim_messages :: "conversation_manager \<Rightarrow> conversation_manager" where
  "trim_messages cm =
     (if int (length (messages cm)) \<le> max_messages cm then cm
      else
        let system_messages = filter is_system (messages cm);
            other_messages = filter (\<lambda>msg. \<not> is_system msg) (messages cm)
        in if system_messages \<noteq> [] then
             let keep_count = max_messages cm - int (length system_messages)
             in cm\<lparr>messages := system_messages @ slice_from other_messages (- keep_count)\<rparr>
           else cm\<lparr>messages := slice_from (messages cm) (- max_messages cm)\<rparr>)"

definition add_message :: "string \<Rightarrow> string \<Rightarrow> real \<Rightarrow> conversation_manager \<Rightarrow> conversation_manager" where
  "add_message r c now cm =
     trim_messages (cm\<lparr>messages := messages cm @ [\<lparr>role = r, content = c, timestamp = now\<rparr>]\<rparr>)"

definition get_messages :: "conversation_manager \<Rightarrow> (string \<times> string) list" where
  "get_messages cm = map (\<lambda>msg. (role msg, content msg)) (messages cm)"

definition clear :: "conversation_manager \<Rightarrow> conversation_manager" where
  "clear cm = cm\<lparr>messages := []\<rparr>"

definition get_message_count :: "conversation_manager \<Rightarrow> nat" where
  "get_message_count cm = length (messages cm)"

definition set_system_message :: "string \<Rightarrow> real \<Rightarrow> conversation_manager \<Rightarrow> conversation_manager" where
  "set_system_message c now cm =
     (let others = filter (\<lambda>msg. \<not> is_system msg) (messages cm)
      in if strip c \<noteq> []
         then cm\<lparr>messages := \<lparr>role = ''system'', content = c, timestamp = now\<rparr> # others\<rparr>
         else cm\<lparr>messages := others\<rparr>)"

text \<open>Sequences of cache operations, run from left to right.\<close>

datatype cache_op =
    Append string string real
  | SetSystem string real
  | Trim
  | Clear

fun apply_op :: "conversation_manager \<Rightarrow> cache_op \<Rightarrow> conversation_manager" where
  "apply_op cm (Append r c now) = add_message r c now cm"
| "apply_op cm (SetSystem c now) = set_system_message c now cm"
| "apply_op cm Trim = trim_messages cm"
| "apply_op cm Clear = clear cm"

definition run_ops :: "conversation_manager \<Rightarrow> cache_op list \<Rightarrow> conversation_manager" where
  "run_ops cm ops = foldl apply_op cm ops"

fun appends_system :: "cache_op \<Rightarrow> bool" where
  "appends_system (Append r c now) = (r = ''system'')"
| "appends_system _ = False"

text \<open>The system message is pinned: no message after the first has the role system.\<close>

fun system_pinned :: "message list \<Rightarrow> bool" where
  "system_pinned [] = True"
| "system_pinned (m # ms) = (filter is_system ms = [])"

section \<open>Retry policy of the request layer (\<open>RequestManager\<close>)\<close>

record response =
  status_code :: int

text \<open>
  The exceptions a request can raise. \<open>HTTPError\<close> carries the response that
  \<open>raise_for_status\<close> attached to it, if any. \<open>OtherException\<close> stands for every exception
  that is neither a connection error, a timeout nor an HTTP error (a JSON decoding
  error of the body, a missing key).
\<close>

datatype request_exception =
    ConnectionError
  | Timeout
  | HTTPError "response option"
  | OtherException

text \<open>
  The truth value of a \<open>requests.Response\<close> is its \<open>ok\<close> property: false exactly when
  \<open>raise_for_status\<close> would raise, that is, for a status code from 400 to 599.
\<close>

definition response_ok :: "response \<Rightarrow> bool" where
  "response_ok r = (\<not> (400 \<le> status_code r \<and> status_code r < 600))"

text \<open>
  \<open>_exponential_backoff\<close> computes in double precision. \<open>2 ** attempt\<close> is an exact
  integer, and \<open>base_delay * (2 ** attempt)\<close> converts it to a double: exactly for an
  attempt below 1024, and with an \<open>OverflowError\<close> from 1024 on (the result \<open>None\<close>).
  The addition of the jitter rounds the exact sum to a double; \<open>fl\<close> is this rounding
  of a real number to the nearest double.
\<close>

definition exponential_backoff :: "(real \<Rightarrow> real) \<Rightarrow> nat \<Rightarrow> real \<Rightarrow> real option" where
  "exponential_backoff fl attempt jitter =
     (if 1024 \<le> attempt then None else Some (min (fl (1 * 2 ^ attempt + jitter)) 30))"

definition should_retry :: "int \<Rightarrow> request_exception \<Rightarrow> nat \<Rightarrow> bool" where
  "should_retry max_retries exception attempt =
     (if int attempt \<ge> max_retries then False
      else if exception = ConnectionError \<or> exception = Timeout then True
      else case exception of
             HTTPError (Some r) \<Rightarrow>
               (if response_ok r \<and> 500 \<le> status_code r \<and> status_code r < 600 then True
                else False)
           | _ \<Rightarrow> False)"

datatype request_state = IDLE | CONNECTING | STREAMING | COMPLETED | STOPPED | ERROR

text \<open>
  What the request layer raises to its caller: \<open>OllamaError\<close> with the last exception of
  the retry loop (\<open>None\<close> when the loop made no attempt at all), or the \<open>OverflowError\<close>
  of the backoff computation, which no handler of the request layer catches.
\<close>

datatype raised = OllamaError "request_exception option" | OverflowError

text \<open>
  One GET of the model list either raises or returns the names of the models. The
  network is a function from the attempt index to what that attempt meets; the jitter
  drawn by \<open>random.uniform(0, 1)\<close> at an attempt is a function of the attempt as well.
\<close>

datatype get_outcome = GetRaises request_exception | GetReturns "string list"

record get_models_run =
  attempts :: nat
  delays :: "real list"
  final_state :: request_state
  returned :: "raised + string list"

function get_models_loop ::
  "(real \<Rightarrow> real) \<Rightarrow> int \<Rightarrow> (nat \<Rightarrow> get_outcome) \<Rightarrow> (nat \<Rightarrow> real) \<Rightarrow> request_state \<Rightarrow> nat
     \<Rightarrow> request_exception option \<Rightarrow> real list \<Rightarrow> get_models_run" where
  "get_models_loop fl max_retries net jitter state attempt last_exception slept =
     (if \<not> int attempt < max_retries + 1 then
        \<lparr>attempts = attempt, delays = slept, final_state = state,
         returned = Inl (OllamaError last_exception)\<rparr>
      else case net attempt of
        GetReturns names \<Rightarrow>
          \<lparr>attempts = Suc attempt, delays = slept, final_state = COMPLETED,
           returned = Inr (sort names)\<rparr>
      | GetRaises e \<Rightarrow>
          if should_retry max_retries e attempt then
            case exponential_backoff fl attempt (jitter attempt) of
              None \<Rightarrow>
                \<lparr>attempts = Suc attempt, delays = slept, final_state = ERROR,
                 returned = Inl OverflowError\<rparr>
            | Some delay \<Rightarrow>
                get_models_loop fl max_retries net jitter ERROR (Suc attempt) (Some e)
                  (slept @ [delay])
          else
            \<lparr>attempts = Suc attempt, delays = slept, final_state = ERROR,
             returned = Inl (OllamaError (Some e))\<rparr>)"
  by pat_completeness auto
termination
  by (relation "measure (\<lambda>(fl, k, net, jitter, state, attempt, le, slept). nat (k + 1 - int attempt))")
     auto

definition get_models ::
  "(real \<Rightarrow> real) \<Rightarrow> int \<Rightarrow> (nat \<Rightarrow> get_outcome) \<Rightarrow> (nat \<Rightarrow> real) \<Rightarrow> request_state
     \<Rightarrow> get_models_run" where
  "get_models fl max_retries net jitter state =
     get_models_loop fl max_retries net jitter state 0 None []"

section \<open>Knowledge retrieval (\<open>KnowledgeBase\<close>)\<close>

fun first_word_index :: "string \<Rightarrow> string list \<Rightarrow> int" where
  "first_word_index content_lower [] = - 1"
| "first_word_index content_lower (word # query_words) =
     (let index = find content_lower word
      in if index \<noteq> - 1 then index else first_word_index content_lower query_words)"

definition best_index :: "string \<Rightarrow> string \<Rightarrow> int" where
  "best_index body query =
     (let query_lower = lower query;
          content_lower = lower body;
          query_words = map (\<lambda>w. lower (strip w)) (filter (\<lambda>w. length (strip w) > 2) (split query));
          index = find content_lower query_lower
      in if index \<noteq> - 1 then index else first_word_index content_lower query_words)"

definition extract_relevant_snippet :: "string \<Rightarrow> string \<Rightarrow> int \<Rightarrow> string" where
  "extract_relevant_snippet body query max_length =
     (if max_length \<le> 0 then []
      else if best_index body query = - 1 then slice_upto body max_length
      else
        let start = max 0 (best_index body query - max_length div 3);
            end = min (int (length body)) (start + max_length);
            snippet = slice body start end;
            snippet = (if start > 0 then ''...'' @ snippet else snippet);
            snippet = (if end < int (length body) then snippet @ ''...'' else snippet)
        in snippet)"

text \<open>
  The metadata store is a collaborator: what \<open>FileManager\<close> answers for the project is
  a parameter of the model. \<open>search_in_files\<close> is the answer to a search for a term with
  limit 3, \<open>get_files\<close> the list of the project's files and \<open>get_file_content\<close> the
  stored content of a file, if any.
\<close>

record search_result =
  file_id :: int
  filename :: string
  snippet :: string

record file_info =
  info_id :: int
  info_filename :: string

record file_store =
  project_exists :: bool
  search_in_files :: "string \<Rightarrow> search_result list"
  get_files :: "file_info list"
  get_file_content :: "int \<Rightarrow> string option"

fun search_terms :: "file_store \<Rightarrow> string list \<Rightarrow> search_result list \<Rightarrow> search_result list" where
  "search_terms store [] search_results = search_results"
| "search_terms store (term # terms) search_results =
     (if length term > 2 then
        let results = search_in_files store (strip term)
        in if results \<noteq> [] then search_results @ results
           else search_terms store terms (search_results @ results)
      else search_terms store terms search_results)"

fun unique_by_id :: "search_result list \<Rightarrow> int list \<Rightarrow> search_result list" where
  "unique_by_id [] seen_ids = []"
| "unique_by_id (result # results) seen_ids =
     (if file_id result \<notin> set seen_ids
      then result # unique_by_id results (file_id result # seen_ids)
      else unique_by_id results seen_ids)"

definition usable_content :: "string option \<Rightarrow> bool" where
  "usable_content c = (case c of None \<Rightarrow> False | Some s \<Rightarrow> s \<noteq> [] \<and> length (strip s) > 10)"

fun first_files :: "file_store \<Rightarrow> file_info list \<Rightarrow> search_result list" where
  "first_files store [] = []"
| "first_files store (f # fs) =
     (case get_file_content store (info_id f) of
        Some c \<Rightarrow>
          (if usable_content (Some c)
           then \<lparr>file_id = info_id f, filename = info_filename f,
                 snippet = (if length c > 200 then slice_upto c 200 @ ''...'' else c)\<rparr>
                # first_files store fs
           else first_files store fs)
      | None \<Rightarrow> first_files store fs)"

definition context_header :: string where
  "context_header = ''CONTESTO DALLA KNOWLEDGE BASE:'' @ [CHR 0x0A, CHR 0x0A]"

definition file_header_of :: "search_result \<Rightarrow> string" where
  "file_header_of result = ''=== FILE: '' @ filename result @ '' ==='' @ [CHR 0x0A]"

fun build_context ::
  "file_store \<Rightarrow> string \<Rightarrow> int \<Rightarrow> search_result list \<Rightarrow> string \<Rightarrow> int \<Rightarrow> string" where
  "build_context store query max_context_length [] context current_length = context"
| "build_context store query max_context_length (result # results) context current_length =
     (if current_length \<ge> max_context_length then context
      else case get_file_content store (file_id result) of
        None \<Rightarrow> build_context store query max_context_length results context current_length
      | Some file_content \<Rightarrow>
          if usable_content (Some file_content) then
            let file_header = file_header_of result;
                content_snippet = extract_relevant_snippet file_content query
                  (min 800 (max_context_length - current_length - int (length file_header) - 10));
                addition = file_header @ content_snippet @ [CHR 0x0A, CHR 0x0A]
            in if current_length + int (length addition) \<le> max_context_length then
                 build_context store query max_context_length results (context @ addition)
                   (current_length + int (length addition))
               else
                 let remaining = max_context_length - current_length
                 in if remaining > 100
                    then context @ slice_upto addition remaining @ ''...'' @ [CHR 0x0A, CHR 0x0A]
                    else context
          else build_context store query max_context_length results context current_length)"

definition get_context_for_query :: "file_store \<Rightarrow> string \<Rightarrow> int \<Rightarrow> string" where
  "get_context_for_query store query max_context_length =
     (if \<not> project_exists store then []
      else
        let terms = slice_upto (split query) 3;
            search_results = search_terms store (query # terms) [];
            unique_results = unique_by_id search_results [];
            unique_results =
              (if unique_results = [] then first_files store (slice_upto (get_files store) 2)
               else unique_results)
        in if unique_results = [] then []
           else strip (build_context store query max_context_length (slice_upto unique_results 3)
                         context_header (int (length context_header))))"

section \<open>Streaming chat (\<open>RequestManager.chat_stream\<close>) and the worker (\<open>OllamaWorker\<close>)\<close>

text \<open>
  A decoded line of the stream. \<open>Chunk c d\<close> is a JSON object: \<open>c\<close> is the value of
  \<open>chunk['message']['content']\<close> when both keys are present, \<open>d\<close> the truth of
  \<open>chunk.get('done', False)\<close>. \<open>Unreadable\<close> is a JSON value on which these accesses raise
  (a number, a list, a content that is not text).
\<close>

datatype chunk = Chunk "string option" bool | Unreadable

text \<open>
  A line as \<open>iter_lines\<close> delivers it: empty, rejected by \<open>json.loads\<close>, or decoded.
\<close>

datatype stream_line = EmptyLine | Undecodable | Decoded chunk

text \<open>
  What one POST meets: an exception of \<open>post\<close> or \<open>raise_for_status\<close>, or a response
  whose body delivers the given lines and then ends (\<open>None\<close>) or raises (\<open>Some e\<close>).
\<close>

datatype post_outcome =
    PostRaises request_exception
  | PostStreams "stream_line list" "request_exception option"

text \<open>
  The surroundings of one task: the outcome of the POST of every attempt, the jitter
  drawn at every attempt, the rounding of reals to doubles, the clock, and the stop
  event. The stop event is set by
  another thread and never cleared while a task runs: \<open>stop_after = Some n\<close> says that
  the first \<open>n\<close> reads of the event see it clear and every later read sees it set
  (\<open>None\<close>: it is never set).
\<close>

record environment =
  post_outcomes :: "nat \<Rightarrow> post_outcome"
  backoff_jitter :: "nat \<Rightarrow> real"
  float_round :: "real \<Rightarrow> real"
  stop_after :: "nat option"
  time_now :: real

datatype task = LoadModels | SendMessage

datatype worker_error =
    NoModelSelected
  | NoMessages
  | ChatError "request_exception option"
  | StreamException
  | NoResponse

datatype event =
    ModelsReceived "string list"
  | MessageChunkReceived string
  | MessageCompleted string
  | ErrorOccurred worker_error
  | ConnectionStatusChanged bool
  | GenerationStopped

text \<open>
  The worker with its request manager. \<open>events\<close> is the log of the signals emitted,
  \<open>polls\<close> the number of reads of the stop event so far, \<open>sleeps\<close> the delays slept,
  \<open>posts\<close> the number of POST requests issued and \<open>lines_read\<close> the number of lines
  taken from response bodies.
\<close>

record worker =
  conversation :: conversation_manager
  current_task :: "task option"
  current_model :: "string option"
  is_busy :: bool
  is_running :: bool
  max_retries :: int
  rm_state :: request_state
  events :: "event list"
  polls :: nat
  sleeps :: "real list"
  posts :: nat
  lines_read :: nat

definition emit :: "event \<Rightarrow> worker \<Rightarrow> worker" where
  "emit e w = w\<lparr>events := events w @ [e]\<rparr>"

definition flag_at :: "environment \<Rightarrow> nat \<Rightarrow> bool" where
  "flag_at env i = (case stop_after env of None \<Rightarrow> False | Some n \<Rightarrow> n \<le> i)"

text \<open>
  \<open>stop_event.is_set()\<close>: \<open>stop_requested env w\<close> is the value read in state \<open>w\<close>, and
  \<open>polled w\<close> the state after the read.
\<close>

definition stop_requested :: "environment \<Rightarrow> worker \<Rightarrow> bool" where
  "stop_requested env w = flag_at env (polls w)"

definition polled :: "worker \<Rightarrow> worker" where
  "polled w = w\<lparr>polls := Suc (polls w)\<rparr>"

text \<open>
  The generator object of \<open>chat_stream\<close> is a resumable computation. Its state is the
  point where it is suspended: before attempt \<open>a\<close> of the retry loop (with the last
  exception seen), inside the body of attempt \<open>a\<close> with the lines still to come, or
  finished.
\<close>

datatype gen_state =
    GenAttempt nat "request_exception option"
  | GenLines nat "stream_line list" "request_exception option"
  | GenClosed

datatype gen_result = Yield chunk | StopIteration | Raise raised

datatype scan = ScanYield chunk "stream_line list" | ScanStopped | ScanEnd

fun scan_lines :: "environment \<Rightarrow> stream_line list \<Rightarrow> worker \<Rightarrow> scan \<times> worker" where
  "scan_lines env [] w = (ScanEnd, w)"
| "scan_lines env (l # ls) w =
     (let w1 = polled (w\<lparr>lines_read := Suc (lines_read w)\<rparr>)
      in if stop_requested env w then (ScanStopped, w1\<lparr>rm_state := STOPPED\<rparr>)
         else case l of
           EmptyLine \<Rightarrow> scan_lines env ls w1
         | Undecodable \<Rightarrow> scan_lines env ls w1
         | Decoded c \<Rightarrow> (ScanYield c ls, w1))"

definition after_loop ::
  "environment \<Rightarrow> request_exception option \<Rightarrow> worker \<Rightarrow> gen_result \<times> gen_state \<times> worker" where
  "after_loop env last_exception w =
     (let w1 = polled w
      in if stop_requested env w then (StopIteration, GenClosed, w1\<lparr>rm_state := STOPPED\<rparr>)
         else (Raise (OllamaError last_exception), GenClosed, w1))"

text \<open>
  One pass through the body of the retry loop either leaves the generator (a yield, a
  return or a raise) or goes on to the next attempt.
\<close>

datatype step = Leave gen_result gen_state | Retry request_exception

definition leave :: "gen_result \<times> gen_state \<times> worker \<Rightarrow> step \<times> worker" where
  "leave x = (case x of (r, g, w) \<Rightarrow> (Leave r g, w))"

definition on_failure ::
  "environment \<Rightarrow> nat \<Rightarrow> request_exception \<Rightarrow> worker \<Rightarrow> step \<times> worker" where
  "on_failure env attempt e w =
     (let w1 = polled (w\<lparr>rm_state := ERROR\<rparr>)
      in if stop_requested env w then (Leave StopIteration GenClosed, w1\<lparr>rm_state := STOPPED\<rparr>)
         else if should_retry (max_retries w) e attempt
         then (case exponential_backoff (float_round env) attempt (backoff_jitter env attempt) of
                 None \<Rightarrow> (Leave (Raise OverflowError) GenClosed, w1)
               | Some delay \<Rightarrow> (Retry e, w1\<lparr>sleeps := sleeps w1 @ [delay]\<rparr>))
         else leave (after_loop env (Some e) w1))"

definition in_stream ::
  "environment \<Rightarrow> nat \<Rightarrow> stream_line list \<Rightarrow> request_exception option \<Rightarrow> worker \<Rightarrow> step \<times> worker" where
  "in_stream env attempt ls tail w =
     (case scan_lines env ls w of
        (ScanYield c rest, w1) \<Rightarrow> (Leave (Yield c) (GenLines attempt rest tail), w1)
      | (ScanStopped, w1) \<Rightarrow> (Leave StopIteration GenClosed, w1)
      | (ScanEnd, w1) \<Rightarrow>
          (case tail of
             None \<Rightarrow> (Leave StopIteration GenClosed, w1\<lparr>rm_state := COMPLETED\<rparr>)
           | Some e \<Rightarrow> on_failure env attempt e w1))"

definition begin_attempt ::
  "environment \<Rightarrow> nat \<Rightarrow> request_exception option \<Rightarrow> worker \<Rightarrow> step \<times> worker" where
  "begin_attempt env attempt last_exception w =
     (if \<not> int attempt < max_retries w + 1 then leave (after_loop env last_exception w)
      else
        let w1 = polled (w\<lparr>rm_state := CONNECTING\<rparr>)
        in if stop_requested env w then (Leave StopIteration GenClosed, w1\<lparr>rm_state := STOPPED\<rparr>)
           else case post_outcomes env attempt of
             PostRaises e \<Rightarrow> on_failure env attempt e (w1\<lparr>posts := Suc (posts w1)\<rparr>)
           | PostStreams ls tail \<Rightarrow>
               in_stream env attempt ls tail (w1\<lparr>posts := Suc (posts w1), rm_state := STREAMING\<rparr>))"

lemma max_retries_polled [simp]: "max_retries (polled w) = max_retries w"
  by (simp add: polled_def)

lemma max_retries_scan_lines: "scan_lines env ls w = (r, w1) \<Longrightarrow> max_retries w1 = max_retries w"
  by (induction ls arbitrary: w) (auto simp: Let_def split: if_splits stream_line.splits)

lemma max_retries_after_loop: "after_loop env le w = (r, g, w1) \<Longrightarrow> max_retries w1 = max_retries w"
  by (auto simp: after_loop_def Let_def split: if_splits)

lemma on_failure_retry:
  "on_failure env a e w = (Retry e', w1) \<Longrightarrow> int a < max_retries w \<and> max_retries w1 = max_retries w"
  by (auto simp: on_failure_def Let_def leave_def should_retry_def
      split: if_splits prod.splits option.splits)

lemma in_stream_retry:
  "in_stream env a ls t w = (Retry e', w1) \<Longrightarrow> int a < max_retries w \<and> max_retries w1 = max_retries w"
  by (auto simp: in_stream_def split: prod.splits scan.splits option.splits
      dest!: on_failure_retry max_retries_scan_lines)

lemma begin_attempt_retry:
  "begin_attempt env a le w = (Retry e', w1) \<Longrightarrow> int a < max_retries w \<and> max_retries w1 = max_retries w"
  by (auto simp: begin_attempt_def Let_def leave_def split: if_splits prod.splits post_outcome.splits
      dest!: on_failure_retry in_stream_retry)

function run_attempts ::
  "environment \<Rightarrow> nat \<Rightarrow> request_exception option \<Rightarrow> worker \<Rightarrow> gen_result \<times> gen_state \<times> worker" where
  "run_attempts env attempt last_exception w =
     (case begin_attempt env attempt last_exception w of
        (Leave r g, w1) \<Rightarrow> (r, g, w1)
      | (Retry e, w1) \<Rightarrow> run_attempts env (Suc attempt) (Some e) w1)"
  by pat_completeness auto
termination
proof (relation "measure (\<lambda>(env, a, le, w). nat (max_retries w - int a))")
  show "wf (measure (\<lambda>(env, a, le, w). nat (max_retries w - int a)))" by simp
next
  fix env :: environment and attempt last_exception w x1 x2 e
  assume "(x1, x2) = begin_attempt env attempt last_exception w" and "x1 = Retry e"
  then have "begin_attempt env attempt last_exception w = (Retry e, x2)" by simp
  from begin_attempt_retry [OF this]
  show "((env, Suc attempt, Some e, x2), (env, attempt, last_exception, w))
          \<in> measure (\<lambda>(env, a, le, w). nat (max_retries w - int a))"
    by simp
qed

definition gen_next ::
  "environment \<Rightarrow> gen_state \<Rightarrow> worker \<Rightarrow> gen_result \<times> gen_state \<times> worker" where
  "gen_next env g w =
     (case g of
        GenAttempt a le \<Rightarrow> run_attempts env a le w
      | GenLines a ls tail \<Rightarrow>
          (case in_stream env a ls tail w of
             (Leave r g', w1) \<Rightarrow> (r, g', w1)
           | (Retry e, w1) \<Rightarrow> run_attempts env (Suc a) (Some e) w1)
      | GenClosed \<Rightarrow> (StopIteration, GenClosed, w))"

definition chat_stream :: gen_state where
  "chat_stream = GenAttempt 0 None"

text \<open>
  How much a suspended generator can still deliver: the attempts left, then the lines
  left in the current body. Every yield makes it smaller, so the loop of the consumer
  terminates.
\<close>

fun gen_rank :: "int \<Rightarrow> gen_state \<Rightarrow> nat" where
  "gen_rank k (GenAttempt a le) = 2 * nat (k + 1 - int a) + 1"
| "gen_rank k (GenLines a ls tail) = 2 * nat (k + 1 - int a)"
| "gen_rank k GenClosed = 0"

fun gen_lines :: "gen_state \<Rightarrow> nat" where
  "gen_lines (GenLines a ls tail) = length ls"
| "gen_lines g = 0"

lemma scan_lines_yield:
  "scan_lines env ls w = (ScanYield c rest, w1) \<Longrightarrow> length rest < length ls"
  by (induction ls arbitrary: w) (auto simp: Let_def less_Suc_eq split: if_splits stream_line.splits)

lemma max_retries_on_failure: "on_failure env a e w = (s, w1) \<Longrightarrow> max_retries w1 = max_retries w"
  by (auto simp: on_failure_def Let_def leave_def after_loop_def split: if_splits option.splits)

lemma max_retries_in_stream: "in_stream env a ls t w = (s, w1) \<Longrightarrow> max_retries w1 = max_retries w"
  by (auto simp: in_stream_def split: prod.splits scan.splits option.splits
      dest!: max_retries_on_failure max_retries_scan_lines)

lemma max_retries_begin_attempt:
  "begin_attempt env a le w = (s, w1) \<Longrightarrow> max_retries w1 = max_retries w"
  by (auto simp: begin_attempt_def Let_def leave_def after_loop_def
      split: if_splits post_outcome.splits
      dest!: max_retries_on_failure max_retries_in_stream)

lemma on_failure_no_yield: "on_failure env a e w \<noteq> (Leave (Yield c) g, w1)"
  by (auto simp: on_failure_def Let_def leave_def after_loop_def split: if_splits option.splits)

lemma in_stream_yield:
  "in_stream env a ls t w = (Leave (Yield c) g, w1) \<Longrightarrow>
     \<exists>rest. g = GenLines a rest t \<and> length rest < length ls"
  by (auto simp: in_stream_def on_failure_no_yield
      split: prod.splits scan.splits option.splits dest: scan_lines_yield)

lemma begin_attempt_yield:
  "begin_attempt env a le w = (Leave (Yield c) g, w1) \<Longrightarrow>
     int a \<le> max_retries w \<and> (\<exists>rest t. g = GenLines a rest t)"
  by (auto simp: begin_attempt_def Let_def leave_def after_loop_def on_failure_no_yield
      split: if_splits post_outcome.splits dest!: in_stream_yield)

lemma max_retries_run_attempts:
  "run_attempts env a le w = (r, g, w1) \<Longrightarrow> max_retries w1 = max_retries w"
proof (induction env a le w rule: run_attempts.induct)
  case (1 env a le w)
  obtain s w' where b: "begin_attempt env a le w = (s, w')" by (cases "begin_attempt env a le w")
  from max_retries_begin_attempt [OF b] have m: "max_retries w' = max_retries w" .
  show ?case
  proof (cases s)
    case (Leave r' g')
    with b "1.prems" m show ?thesis by (subst (asm) run_attempts.simps) simp
  next
    case (Retry e)
    from "1.prems" b Retry have "run_attempts env (Suc a) (Some e) w' = (r, g, w1)"
      by (subst (asm) run_attempts.simps) simp
    from "1.IH" [OF b [symmetric] Retry this] m show ?thesis by simp
  qed
qed

lemma run_attempts_yield:
  "run_attempts env a le w = (Yield c, g, w1) \<Longrightarrow>
     \<exists>a' rest t. g = GenLines a' rest t \<and> a \<le> a' \<and> int a' \<le> max_retries w"
proof (induction env a le w rule: run_attempts.induct)
  case (1 env a le w)
  obtain s w' where b: "begin_attempt env a le w = (s, w')" by (cases "begin_attempt env a le w")
  from max_retries_begin_attempt [OF b] have m: "max_retries w' = max_retries w" .
  show ?case
  proof (cases s)
    case (Leave r' g')
    with b "1.prems" have "begin_attempt env a le w = (Leave (Yield c) g, w1)"
      by (subst (asm) run_attempts.simps) simp
    from begin_attempt_yield [OF this] show ?thesis by auto
  next
    case (Retry e)
    from "1.prems" b Retry have "run_attempts env (Suc a) (Some e) w' = (Yield c, g, w1)"
      by (subst (asm) run_attempts.simps) simp
    from "1.IH" [OF b [symmetric] Retry this] m show ?thesis by auto
  qed
qed

lemma max_retries_gen_next:
  assumes "gen_next env g w = (r, g', w1)"
  shows "max_retries w1 = max_retries w"
proof (cases g)
  case (GenAttempt a le)
  with assms have "run_attempts env a le w = (r, g', w1)" by (simp add: gen_next_def)
  then show ?thesis by (rule max_retries_run_attempts)
next
  case (GenLines a ls t)
  obtain s w' where i: "in_stream env a ls t w = (s, w')" by (cases "in_stream env a ls t w")
  from max_retries_in_stream [OF i] have m: "max_retries w' = max_retries w" .
  show ?thesis
  proof (cases s)
    case (Leave r' gg)
    with assms GenLines i m show ?thesis by (simp add: gen_next_def)
  next
    case (Retry e)
    with assms GenLines i have "run_attempts env (Suc a) (Some e) w' = (r, g', w1)"
      by (simp add: gen_next_def)
    from max_retries_run_attempts [OF this] m show ?thesis by simp
  qed
next
  case GenClosed
  with assms show ?thesis by (simp add: gen_next_def)
qed

lemma gen_next_yield_decreases:
  assumes "gen_next env g w = (Yield c, g', w1)"
  shows "gen_rank (max_retries w) g' < gen_rank (max_retries w) g
       \<or> gen_rank (max_retries w) g' = gen_rank (max_retries w) g \<and> gen_lines g' < gen_lines g"
proof (cases g)
  case (GenAttempt a le)
  with assms have "run_attempts env a le w = (Yield c, g', w1)" by (simp add: gen_next_def)
  from run_attempts_yield [OF this] GenAttempt show ?thesis by auto
next
  case (GenLines a ls t)
  obtain s w' where i: "in_stream env a ls t w = (s, w')" by (cases "in_stream env a ls t w")
  show ?thesis
  proof (cases s)
    case (Leave r gg)
    with assms GenLines i have "in_stream env a ls t w = (Leave (Yield c) g', w1)"
      by (simp add: gen_next_def)
    from in_stream_yield [OF this] GenLines show ?thesis by auto
  next
    case (Retry e)
    with assms GenLines i have r: "run_attempts env (Suc a) (Some e) w' = (Yield c, g', w1)"
      by (simp add: gen_next_def)
    from i Retry have "max_retries w' = max_retries w" by (auto dest: in_stream_retry)
    with run_attempts_yield [OF r] GenLines show ?thesis by auto
  qed
next
  case GenClosed
  with assms show ?thesis by (simp add: gen_next_def)
qed

definition model_selected :: "worker \<Rightarrow> bool" where
  "model_selected w = (case current_model w of None \<Rightarrow> False | Some m \<Rightarrow> m \<noteq> [])"

text \<open>
  The streaming phase of \<open>_handle_send_message\<close>. \<open>chat_stream\<close> is a generator function:
  calling it runs nothing and returns a generator object, never \<open>None\<close>, so the test
  for \<open>None\<close> in the source never fires. \<open>stop_or_error\<close> is the handler of both
  \<open>except\<close> clauses (\<open>error_of\<close> gives the error each of them reports: the first catches
  \<open>OllamaError\<close>, the second everything else), \<open>finish\<close> the code after the loop, and
  \<open>consume\<close> the loop itself:
  each round resumes the generator, and a yielded chunk is handled before the generator
  runs again.
\<close>

definition error_of :: "raised \<Rightarrow> worker_error" where
  "error_of err = (case err of OllamaError le \<Rightarrow> ChatError le | OverflowError \<Rightarrow> StreamException)"

definition stop_or_error :: "environment \<Rightarrow> worker_error \<Rightarrow> worker \<Rightarrow> worker" where
  "stop_or_error env err w =
     (if stop_requested env w then emit GenerationStopped (polled w)
      else emit (ErrorOccurred err) (polled w))"

definition finish :: "environment \<Rightarrow> string \<Rightarrow> bool \<Rightarrow> worker \<Rightarrow> worker" where
  "finish env full_response stream_started w =
     (if stop_requested env w then emit GenerationStopped (polled w)
      else if full_response \<noteq> [] then
        emit (MessageCompleted full_response)
          ((polled w)\<lparr>conversation :=
             add_message ''assistant'' full_response (time_now env) (conversation w)\<rparr>)
      else if stream_started then emit (MessageCompleted []) (polled w)
      else emit (ErrorOccurred NoResponse) (polled w))"

definition consume_order :: "((environment \<times> gen_state \<times> string \<times> bool \<times> worker) \<times>
    (environment \<times> gen_state \<times> string \<times> bool \<times> worker)) set" where
  "consume_order = (\<lambda>(env, g, full, started, w). gen_rank (max_retries w) g)
                   <*mlex*> measure (\<lambda>(env, g, full, started, w). gen_lines g)"

lemma wf_consume_order: "wf consume_order"
  by (simp add: consume_order_def wf_mlex)

lemma consume_order_step:
  assumes "gen_next env g w = (Yield c, g', w1)" and "max_retries w2 = max_retries w1"
  shows "((env, g', f2, s2, w2), (env, g, f, s, w)) \<in> consume_order"
  using gen_next_yield_decreases [OF assms(1)] max_retries_gen_next [OF assms(1)] assms(2)
  by (auto simp: consume_order_def mlex_iff)

lemma consume_order_yield:
  assumes "(x, y) = gen_next env g w" and "x = Yield c" and "(g', w1) = y"
    and "max_retries w2 = max_retries w1"
  shows "((env, g', f2, s2, w2), (env, g, f, s, w)) \<in> consume_order"
proof -
  from assms(1-3) have "gen_next env g w = (Yield c, g', w1)" by simp
  then show ?thesis using assms(4) by (rule consume_order_step)
qed

function consume :: "environment \<Rightarrow> gen_state \<Rightarrow> string \<Rightarrow> bool \<Rightarrow> worker \<Rightarrow> worker" where
  "consume env g full_response stream_started w =
     (case gen_next env g w of
        (Raise err, g', w1) \<Rightarrow> stop_or_error env (error_of err) w1
      | (StopIteration, g', w1) \<Rightarrow> finish env full_response stream_started w1
      | (Yield c, g', w1) \<Rightarrow>
          if stop_requested env w1 then emit GenerationStopped (polled w1)
          else case c of
            Unreadable \<Rightarrow> stop_or_error env StreamException (polled w1)
          | Chunk None done \<Rightarrow>
              if done then finish env full_response True (polled w1)
              else consume env g' full_response True (polled w1)
          | Chunk (Some s) done \<Rightarrow>
              if s \<noteq> [] then
                if done then finish env (full_response @ s) True
                               (emit (MessageChunkReceived s) (polled w1))
                else consume env g' (full_response @ s) True
                       (emit (MessageChunkReceived s) (polled w1))
              else
                if done then finish env full_response True (polled w1)
                else consume env g' full_response True (polled w1))"
  by pat_completeness auto
termination
  apply (relation consume_order)
     apply (rule wf_consume_order)
    apply (erule (2) consume_order_yield, simp add: polled_def emit_def)+
  done

definition handle_send_message :: "environment \<Rightarrow> worker \<Rightarrow> worker" where
  "handle_send_message env w =
     (if \<not> model_selected w then emit (ErrorOccurred NoModelSelected) w
      else if stop_requested env w then emit GenerationStopped (polled w)
      else if get_messages (conversation w) = [] then emit (ErrorOccurred NoMessages) (polled w)
      else consume env chat_stream [] False (polled w))"

definition load_models :: "worker \<Rightarrow> bool \<times> worker" where
  "load_models w =
     (if is_busy w then (False, w)
      else (True, w\<lparr>current_task := Some LoadModels, is_running := True\<rparr>))"

definition send_message :: "string \<Rightarrow> string \<Rightarrow> real \<Rightarrow> worker \<Rightarrow> bool \<times> worker" where
  "send_message message ctx now w =
     (if \<not> model_selected w then (False, emit (ErrorOccurred NoModelSelected) w)
      else if is_busy w then (False, w)
      else
        let final_message =
              (if strip ctx \<noteq> [] then
                 strip ctx @ [CHR 0x0A, CHR 0x0A] @ ''DOMANDA UTENTE: '' @ message
                   @ [CHR 0x0A, CHR 0x0A]
                   @ ''Rispondi utilizzando le informazioni del contesto quando rilevanti.''
               else message)
        in (True, w\<lparr>conversation := add_message ''user'' final_message now (conversation w),
                    current_task := Some SendMessage, is_running := True\<rparr>))"

section \<open>States and predicates used in the properties\<close>

text \<open>A full cache of capacity 2, for the examples.\<close>

definition full_cache :: conversation_manager where
  "full_cache = \<lparr>messages = [\<lparr>role = ''user'', content = ''a'', timestamp = 0\<rparr>,
                              \<lparr>role = ''assistant'', content = ''b'', timestamp = 1\<rparr>],
                 max_messages = 2\<rparr>"

definition demo_ops :: "cache_op list" where
  "demo_ops = [SetSystem ''be brief'' 0, Append ''user'' ''a'' 1, Append ''assistant'' ''b'' 2,
      Append ''user'' ''c'' 3, SetSystem ''be kind'' 4, Append ''user'' ''d'' 5, Trim]"

text \<open>
  A project with one file whose name has 104 characters and whose content mentions the
  refund policy.
\<close>

definition long_name_store :: file_store where
  "long_name_store =
     \<lparr>project_exists = True,
      search_in_files = (\<lambda>t. if t = ''refund''
         then [\<lparr>file_id = 1, filename = replicate 100 CHR ''a'' @ ''.txt'', snippet = ''refund policy''\<rparr>]
         else []),
      get_files = [\<lparr>info_id = 1, info_filename = replicate 100 CHR ''a'' @ ''.txt''\<rparr>],
      get_file_content = (\<lambda>i. if i = 1 then Some ''refund policy'' else None)\<rparr>"

text \<open>The example of the specification: a project with a file on the refund policy.\<close>

definition refund_store :: file_store where
  "refund_store =
     \<lparr>project_exists = True,
      search_in_files = (\<lambda>t. if t = ''refund''
         then [\<lparr>file_id = 1, filename = ''policy.txt'', snippet = ''our refund policy''\<rparr>]
         else []),
      get_files = [\<lparr>info_id = 1, info_filename = ''policy.txt''\<rparr>],
      get_file_content = (\<lambda>i. if i = 1 then Some ''Our refund policy'' else None)\<rparr>"

text \<open>A worker with a selected model and one user message in its cache, for the examples.\<close>

definition ready_worker :: worker where
  "ready_worker =
     \<lparr>conversation = \<lparr>messages = [\<lparr>role = ''user'', content = ''hi'', timestamp = 0\<rparr>],
                      max_messages = 100\<rparr>,
      current_task = None, current_model = Some ''llama3'', is_busy = False, is_running = True,
      max_retries = 3, rm_state = IDLE, events = [], polls = 0, sleeps = [], posts = 0,
      lines_read = 0\<rparr>"

definition two_line_env :: environment where
  "two_line_env =
     \<lparr>post_outcomes = (\<lambda>a. PostStreams
         [Decoded (Chunk (Some ''a'') False), Decoded (Chunk (Some ''b'') True),
          Decoded (Chunk (Some ''c'') False)] None),
      backoff_jitter = (\<lambda>a. 0), float_round = (\<lambda>x. x), stop_after = None, time_now = 7\<rparr>"

text \<open>
  What the generator leaves alone: it emits no signal and does not touch the cache, and
  the number of reads of the stop event only grows.
\<close>

definition frame :: "worker \<Rightarrow> worker \<Rightarrow> bool" where
  "frame w w1 = (conversation w1 = conversation w \<and> events w1 = events w \<and> polls w \<le> polls w1)"

text \<open>
  A run that ends in a stop: content deltas, then the stopped signal, and the cache as
  it was. \<open>last_read_set env w'\<close> says that the last read of the stop event before the
  state \<open>w'\<close> saw it set.
\<close>

definition stopped_run :: "worker \<Rightarrow> worker \<Rightarrow> bool" where
  "stopped_run w w' =
     ((\<exists>ds. events w' = events w @ map MessageChunkReceived ds @ [GenerationStopped])
      \<and> conversation w' = conversation w)"

definition last_read_set :: "environment \<Rightarrow> worker \<Rightarrow> bool" where
  "last_read_set env w' = (0 < polls w' \<and> flag_at env (polls w' - 1))"

text \<open>
  A stream that starts with a blank line, with the stop event set after three reads (on
  the second line, before the first chunk).
\<close>

definition blank_line_env :: environment where
  "blank_line_env =
     \<lparr>post_outcomes = (\<lambda>a. PostStreams
         [EmptyLine, Decoded (Chunk (Some ''a'') False), Decoded (Chunk (Some ''b'') True)] None),
      backoff_jitter = (\<lambda>a. 0), float_round = (\<lambda>x. x), stop_after = Some 3, time_now = 7\<rparr>"

text \<open>
  The generator hands over a chunk, or raises, only when its last read of the stop event
  saw it clear.
\<close>

definition last_read_clear :: "environment \<Rightarrow> worker \<Rightarrow> worker \<Rightarrow> bool" where
  "last_read_clear env w w1 = (polls w < polls w1 \<and> \<not> flag_at env (polls w1 - 1))"

text \<open>The two-line stream with the stop event set after five reads (on the second delta).\<close>

definition stopping_env :: environment where
  "stopping_env = two_line_env\<lparr>stop_after := Some 5\<rparr>"

section \<open>Properties of the conversation cache and of the retry policy\<close>

lemma length_slice_from_neg:
  "0 < k \<Longrightarrow> int (length (slice_from xs (- k))) \<le> k"
  by (auto simp: slice_from_def slice_bound_def)

lemma max_messages_trim [simp]: "max_messages (trim_messages cm) = max_messages cm"
  by (simp add: trim_messages_def Let_def)

lemma length_trim_messages:
  assumes "0 < max_messages cm"
    and "int (length (filter is_system (messages cm))) < max_messages cm"
  shows "int (length (messages (trim_messages cm))) \<le> max_messages cm"
proof (cases "int (length (messages cm)) \<le> max_messages cm")
  case True
  then show ?thesis by (simp add: trim_messages_def)
next
  case False
  show ?thesis
  proof (cases "filter is_system (messages cm) = []")
    case True
    with False assms(1) show ?thesis
      by (simp add: trim_messages_def length_slice_from_neg)
  next
    case sys: False
    let ?k = "max_messages cm - int (length (filter is_system (messages cm)))"
    from assms(2) have "0 < ?k" by simp
    then have "int (length (slice_from (filter (\<lambda>msg. \<not> is_system msg) (messages cm)) (- ?k))) \<le> ?k"
      by (rule length_slice_from_neg)
    with False sys show ?thesis
      by (simp add: trim_messages_def Let_def)
  qed
qed

text \<open>
  Claim C1, as amended. Whatever the state of the cache, with a capacity of at least one
  an append that leaves fewer system messages than the capacity leaves at most
  \<open>max_messages\<close> messages stored. \<open>set_system_message\<close> never trims: it leaves at most
  one message more than it found.
\<close>

theorem cache_capacity_bound:
  assumes "0 < max_messages cm"
    and "int (length (filter is_system (messages cm))) + (if r = ''system'' then 1 else 0)
           < max_messages cm"
  shows "int (get_message_count (add_message r c now cm)) \<le> max_messages cm
       \<and> get_message_count (set_system_message s now cm) \<le> get_message_count cm + 1"
proof -
  have "int (length (messages (add_message r c now cm))) \<le> max_messages cm"
    unfolding add_message_def
    using length_trim_messages
      [of "cm\<lparr>messages := messages cm @ [\<lparr>role = r, content = c, timestamp = now\<rparr>]\<rparr>"] assms
    by (simp add: is_system_def split: if_splits)
  moreover have "length (messages (set_system_message s now cm)) \<le> length (messages cm) + 1"
    by (simp add: set_system_message_def Let_def le_SucI)
  ultimately show ?thesis by (simp add: get_message_count_def)
qed

theorem cache_capacity_bound_witness:
  "0 < max_messages full_cache
   \<and> get_message_count (add_message ''user'' ''c'' 2 full_cache) = 2
   \<and> map content (messages (add_message ''user'' ''c'' 2 full_cache)) = [''b'', ''c'']"
  using cache_capacity_bound [of full_cache "''user''" "''c''" 2 "''x''"]
  by (simp add: full_cache_def add_message_def trim_messages_def is_system_def
      get_message_count_def slice_from_def slice_bound_def)

text \<open>
  The bound of C1 as stated fails: setting the system message on a full cache of
  capacity 2 leaves 3 messages, and with one system message at capacity 1 an append
  keeps the new user message as well (\<open>keep_count\<close> is 0 and \<open>other_messages[-0:]\<close> is
  the whole list).
\<close>

theorem cache_capacity_counterexample:
  "int (get_message_count (set_system_message ''be brief'' 2 full_cache))
     > max_messages (set_system_message ''be brief'' 2 full_cache)
   \<and> map role (messages (add_message ''user'' ''hi'' 1
        \<lparr>messages = [\<lparr>role = ''system'', content = ''s'', timestamp = 0\<rparr>], max_messages = 1\<rparr>))
      = [''system'', ''user'']"
  by (simp add: full_cache_def set_system_message_def add_message_def trim_messages_def
      is_system_def get_message_count_def slice_from_def slice_bound_def
      strip_def lstrip_def rstrip_def is_space_def Let_def)

text \<open>
  What \<open>should_retry\<close> computes: only connection errors and timeouts are retried.
\<close>

lemma should_retry_iff:
  "should_retry k e a \<longleftrightarrow> int a < k \<and> (e = ConnectionError \<or> e = Timeout)"
  by (auto simp: should_retry_def response_ok_def split: request_exception.splits option.splits)

text \<open>
  Claim C2. The claim says that an HTTP error with a 5xx status is retried while the
  attempt index is below \<open>max_retries\<close>. The code tests \<open>exception.response and ...\<close>, and
  the response of a 5xx error is false as a truth value, so the error is not retried:
  \<open>should_retry\<close> answers no at attempt 0 of 3 for a 503.
\<close>

theorem server_error_not_retried:
  "should_retry 3 (HTTPError (Some \<lparr>status_code = 503\<rparr>)) 0 = False"
  by (simp add: should_retry_def response_ok_def)

lemma exponential_backoff_le: "exponential_backoff fl a u = Some d \<Longrightarrow> d \<le> 30"
  by (auto simp: exponential_backoff_def split: if_splits)



text \<open>
  Beyond 1024 retries the backoff computation overflows at attempt 1024: the request
  leaves with \<open>OverflowError\<close> after 1025 attempts.
\<close>

lemma get_models_loop_overflow:
  assumes net: "\<forall>a. \<exists>e. net a = GetRaises e \<and> (e = ConnectionError \<or> e = Timeout)"
    and large: "1024 < k"
  shows "attempt \<le> 1024 \<Longrightarrow>
     attempts (get_models_loop fl k net jitter st attempt le slept) = 1025
   \<and> returned (get_models_loop fl k net jitter st attempt le slept) = Inl OverflowError"
proof (induction "1024 - attempt" arbitrary: attempt st le slept)
  case 0
  then have eq: "attempt = 1024" by simp
  from net obtain e where e: "net attempt = GetRaises e" "e = ConnectionError \<or> e = Timeout"
    by blast
  with eq large have retry: "should_retry k e attempt" by (simp add: should_retry_iff)
  from eq have "exponential_backoff fl attempt (jitter attempt) = None"
    by (simp add: exponential_backoff_def)
  with e retry eq large show ?case
    by (subst (1 2) get_models_loop.simps) simp
next
  case (Suc n)
  then have lt: "attempt < 1024" by simp
  from net obtain e where e: "net attempt = GetRaises e" "e = ConnectionError \<or> e = Timeout"
    by blast
  with lt large have retry: "should_retry k e attempt" by (simp add: should_retry_iff)
  from lt have delay: "exponential_backoff fl attempt (jitter attempt)
      = Some (min (fl (1 * 2 ^ attempt + jitter attempt)) 30)"
    by (simp add: exponential_backoff_def)
  from Suc(2) lt have n: "n = 1024 - Suc attempt" by simp
  from lt have le': "Suc attempt \<le> 1024" by simp
  note IH = Suc(1) [OF n le', of ERROR "Some e"
      "slept @ [min (fl (1 * 2 ^ attempt + jitter attempt)) 30]"]
  show ?case
    apply (subst (1 2) get_models_loop.simps)
    using e retry lt large IH delay by simp
qed

lemma request_overflow:
  assumes "1024 < k"
    and "\<forall>a. \<exists>e. net a = GetRaises e \<and> (e = ConnectionError \<or> e = Timeout)"
  shows "attempts (get_models fl k net jitter st) = 1025
       \<and> returned (get_models fl k net jitter st) = Inl OverflowError"
  unfolding get_models_def
  by (rule get_models_loop_overflow [OF assms(2,1)]) simp




lemma set_slice_from: "set (slice_from xs i) \<subseteq> set xs"
  by (simp add: slice_from_def set_drop_subset)

lemma filter_slice_from_empty: "filter P xs = [] \<Longrightarrow> filter P (slice_from xs i) = []"
  using set_slice_from [of xs i] by (auto simp: filter_empty_conv)

lemma system_pinned_no_system: "filter is_system ms = [] \<Longrightarrow> system_pinned ms"
  by (cases ms) (auto split: if_splits)

lemma system_pinned_filter:
  "system_pinned ms \<Longrightarrow> filter is_system ms = [] \<or> (\<exists>m. filter is_system ms = [m])"
  by (cases ms) auto

lemma system_pinned_trim:
  assumes "system_pinned (messages cm)"
  shows "system_pinned (messages (trim_messages cm))"
proof (cases "int (length (messages cm)) \<le> max_messages cm")
  case True
  then show ?thesis using assms by (simp add: trim_messages_def)
next
  case False
  from system_pinned_filter [OF assms] show ?thesis
  proof
    assume none: "filter is_system (messages cm) = []"
    then have "filter is_system (slice_from (messages cm) (- max_messages cm)) = []"
      by (rule filter_slice_from_empty)
    then show ?thesis using False none
      by (simp add: trim_messages_def system_pinned_no_system)
  next
    assume "\<exists>m. filter is_system (messages cm) = [m]"
    then obtain m where one: "filter is_system (messages cm) = [m]" ..
    have "filter is_system (slice_from (filter (\<lambda>msg. \<not> is_system msg) (messages cm)) i) = []" for i
      by (rule filter_slice_from_empty) simp
    then show ?thesis using False one
      by (simp add: trim_messages_def Let_def)
  qed
qed

lemma system_pinned_append:
  "system_pinned ms \<Longrightarrow> \<not> is_system m \<Longrightarrow> system_pinned (ms @ [m])"
  by (cases ms) auto

lemma system_pinned_add_message:
  "system_pinned (messages cm) \<Longrightarrow> r \<noteq> ''system'' \<Longrightarrow> system_pinned (messages (add_message r c now cm))"
  unfolding add_message_def
  by (rule system_pinned_trim) (simp add: system_pinned_append is_system_def)

lemma system_pinned_set_system_message:
  "system_pinned (messages (set_system_message c now cm))"
  by (simp add: set_system_message_def Let_def system_pinned_no_system)

lemma system_pinned_apply_op:
  "system_pinned (messages cm) \<Longrightarrow> \<not> appends_system op \<Longrightarrow> system_pinned (messages (apply_op cm op))"
  by (cases op)
     (simp_all add: system_pinned_add_message system_pinned_set_system_message
        system_pinned_trim clear_def)

lemma system_pinned_foldl:
  "system_pinned (messages cm) \<Longrightarrow> \<forall>op \<in> set ops. \<not> appends_system op
     \<Longrightarrow> system_pinned (messages (foldl apply_op cm ops))"
  by (induction ops arbitrary: cm) (simp_all add: system_pinned_apply_op)

lemma system_pinned_index:
  "system_pinned ms \<Longrightarrow> i < length ms \<Longrightarrow> is_system (ms ! i) \<Longrightarrow> i = 0"
proof (cases ms)
  case Nil
  assume "i < length ms" with Nil show ?thesis by simp
next
  case (Cons m rest)
  assume p: "system_pinned ms" and i: "i < length ms" and s: "is_system (ms ! i)"
  show ?thesis
  proof (rule ccontr)
    assume "i \<noteq> 0"
    then obtain j where j: "i = Suc j" by (cases i) auto
    with i Cons have "rest ! j \<in> set rest" by simp
    moreover from s j Cons have "is_system (rest ! j)" by simp
    ultimately have "filter is_system rest \<noteq> []" by (auto simp: filter_empty_conv)
    with p Cons show False by simp
  qed
qed

lemma system_pinned_count: "system_pinned ms \<Longrightarrow> length (filter is_system ms) \<le> 1"
  by (cases ms) auto

text \<open>
  Claim C6, as amended. From a cache whose system message, if any, is first and alone,
  every sequence of operations that appends no message of role system (appends of other
  roles, \<open>set_system_message\<close>, trimming and clearing) leaves at most one system message,
  and a system message only at index 0.
\<close>

theorem system_message_pinned:
  assumes "system_pinned (messages cm)" and "\<forall>op \<in> set ops. \<not> appends_system op"
  shows "system_pinned (messages (run_ops cm ops))
       \<and> length (filter is_system (messages (run_ops cm ops))) \<le> 1
       \<and> (\<forall>i < length (messages (run_ops cm ops)).
             is_system (messages (run_ops cm ops) ! i) \<longrightarrow> i = 0)"
proof -
  have p: "system_pinned (messages (run_ops cm ops))"
    unfolding run_ops_def using assms by (rule system_pinned_foldl)
  then show ?thesis
    using system_pinned_count [OF p] system_pinned_index [OF p] by blast
qed

lemma strip_demo: "strip ''be brief'' \<noteq> []" "strip ''be kind'' \<noteq> []"
  by (simp_all add: strip_def lstrip_def rstrip_def is_space_def)

theorem system_message_pinned_witness:
  "system_pinned (messages \<lparr>messages = [], max_messages = 3\<rparr>)
   \<and> list_all (\<lambda>op. \<not> appends_system op) demo_ops
   \<and> map role (messages (run_ops \<lparr>messages = [], max_messages = 3\<rparr> demo_ops))
       = [''system'', ''user'', ''user'']
   \<and> length (filter is_system (messages (run_ops \<lparr>messages = [], max_messages = 3\<rparr> demo_ops))) \<le> 1"
  using system_message_pinned [of "\<lparr>messages = [], max_messages = 3\<rparr>" demo_ops]
  by (simp add: demo_ops_def run_ops_def add_message_def set_system_message_def trim_messages_def
      is_system_def slice_from_def slice_bound_def strip_demo Let_def)

text \<open>
  C6 as stated fails for appends of role system: \<open>add_message\<close> puts the message at the
  end whatever its role, so a system message can stand at index 1 and two system
  messages can be stored.
\<close>

theorem system_append_counterexample:
  "is_system (messages (run_ops \<lparr>messages = [], max_messages = 3\<rparr>
       [Append ''user'' ''hello'' 0, Append ''system'' ''be brief'' 1]) ! 1)
   \<and> length (filter is_system (messages (run_ops \<lparr>messages = [], max_messages = 3\<rparr>
       [Append ''system'' ''be brief'' 0, Append ''system'' ''be kind'' 1]))) = 2"
  by (simp add: run_ops_def add_message_def trim_messages_def is_system_def)

section \<open>Properties of the knowledge retrieval\<close>

lemma length_slice_upto: "0 < j \<Longrightarrow> int (length (slice_upto xs j)) \<le> j"
  by (auto simp: slice_upto_def slice_bound_def)

lemma length_slice:
  assumes "0 \<le> i" "0 \<le> j" "j \<le> i + m" "0 \<le> m"
  shows "int (length (slice xs i j)) \<le> m"
proof -
  have "length (slice xs i j) \<le> slice_bound j (length xs) - slice_bound i (length xs)"
    by (simp add: slice_def)
  also have "\<dots> \<le> nat m"
    using assms by (simp add: slice_bound_def min_def) linarith
  finally show ?thesis using assms(4) by linarith
qed

text \<open>
  Claim C10. For a positive \<open>max_length\<close> the snippet has at most \<open>max_length + 6\<close>
  characters: the window has at most \<open>max_length\<close> and each of the two ellipsis markers
  adds 3. When nothing matches (\<open>best_index\<close> is -1) the snippet has at most
  \<open>max_length\<close> characters.
\<close>

theorem snippet_length_bound:
  assumes "0 < m"
  shows "int (length (extract_relevant_snippet body query m)) \<le> m + 6
       \<and> (best_index body query = - 1 \<longrightarrow> int (length (extract_relevant_snippet body query m)) \<le> m)"
proof (cases "best_index body query = - 1")
  case True
  with assms length_slice_upto [OF assms, of body] show ?thesis
    by (simp add: extract_relevant_snippet_def)
next
  case False
  define start where "start = max 0 (best_index body query - m div 3)"
  define stop where "stop = min (int (length body)) (start + m)"
  have "0 \<le> start" by (simp add: start_def)
  moreover have "stop \<le> start + m" by (simp add: stop_def)
  moreover have "0 \<le> stop" using \<open>0 \<le> start\<close> assms by (simp add: stop_def)
  ultimately have "int (length (slice body start stop)) \<le> m"
    using assms by (intro length_slice) simp_all
  with False assms show ?thesis
    by (simp add: extract_relevant_snippet_def Let_def start_def [symmetric] stop_def [symmetric])
qed

text \<open>
  The bound \<open>max_length + 6\<close> is reached: a window of 3 characters clipped on both
  sides gives 9 characters.
\<close>

lemma snippet_example:
  "extract_relevant_snippet ''aaaaaaaaaXbbbbbbbbb'' ''x'' 3 = ''...aXb...''"
  by code_simp

lemma snippet_no_match_example:
  "best_index ''hello world'' ''zebra'' = - 1
   \<and> extract_relevant_snippet ''hello world'' ''zebra'' 5 = ''hello''"
  by code_simp

theorem snippet_length_bound_witness:
  "(0::int) < 3
   \<and> extract_relevant_snippet ''aaaaaaaaaXbbbbbbbbb'' ''x'' 3 = ''...aXb...''
   \<and> int (length (extract_relevant_snippet ''aaaaaaaaaXbbbbbbbbb'' ''x'' 3)) = 3 + 6
   \<and> int (length (extract_relevant_snippet ''hello world'' ''zebra'' 5)) \<le> 5"
  using snippet_length_bound [of 3 "''aaaaaaaaaXbbbbbbbbb''" "''x''"]
    snippet_length_bound [of 5 "''hello world''" "''zebra''"]
    snippet_example snippet_no_match_example
  by simp

text \<open>
  Claim C3. The claim bounds the context block by \<open>max_context_length\<close>. The truncating
  branch cuts the addition to the remaining budget and then appends the ellipsis marker,
  so the block is 3 characters longer than the bound: 143 characters for a bound of 140.
\<close>

theorem context_exceeds_max_length:
  "length (get_context_for_query long_name_store ''refund'' 140) = 143"
  by code_simp

lemma refund_example:
  "get_context_for_query refund_store ''refund'' 500 \<noteq> []
   \<and> length (get_context_for_query refund_store ''refund'' 500) \<le> 500"
  by code_simp

text \<open>
  What the code does guarantee: the block never has more than \<open>max_context_length + 3\<close>
  characters, or the 30 characters of the bare header when the bound is smaller.
\<close>

lemma length_lstrip: "length (lstrip s) \<le> length s"
  by (simp add: lstrip_def length_dropWhile_le)

lemma length_rstrip: "length (rstrip s) \<le> length s"
  using length_dropWhile_le [of is_space "rev s"] by (simp add: rstrip_def)

lemma length_strip: "length (strip s) \<le> length s"
  using length_rstrip [of "lstrip s"] length_lstrip [of s] by (simp add: strip_def)

lemma is_space_newline: "is_space (CHR 0x0A)"
  by (simp add: is_space_def)

lemma rstrip_newlines: "rstrip (s @ [CHR 0x0A, CHR 0x0A]) = rstrip s"
  by (simp add: rstrip_def is_space_newline)

lemma length_strip_newlines: "length (strip (s @ [CHR 0x0A, CHR 0x0A])) \<le> length s"
proof (cases "\<forall>c \<in> set s. is_space c")
  case True
  then have "lstrip (s @ [CHR 0x0A, CHR 0x0A]) = []"
    by (simp add: lstrip_def is_space_newline)
  then show ?thesis by (simp add: strip_def rstrip_def)
next
  case False
  then have "lstrip (s @ [CHR 0x0A, CHR 0x0A]) = lstrip s @ [CHR 0x0A, CHR 0x0A]"
    by (auto simp: lstrip_def dropWhile_append1)
  then have "strip (s @ [CHR 0x0A, CHR 0x0A]) = strip s"
    by (simp add: strip_def rstrip_newlines)
  then show ?thesis by (simp add: length_strip)
qed

lemma length_slice_upto_le: "0 \<le> j \<Longrightarrow> int (length (slice_upto xs j)) \<le> j"
  by (auto simp: slice_upto_def slice_bound_def)

lemma build_context_bound:
  "int (length ctx) = cur \<Longrightarrow>
   int (length (strip (build_context store query m results ctx cur)))
     \<le> max (m + 3) (int (length (strip ctx)))"
proof (induction results arbitrary: ctx cur)
  case Nil
  then show ?case by simp
next
  case (Cons result results)
  let ?header = "file_header_of result"
  show ?case
  proof (cases "cur \<ge> m")
    case True
    then show ?thesis by simp
  next
    case open_budget: False
    show ?thesis
    proof (cases "get_file_content store (file_id result)")
      case None
      with open_budget Cons.IH [OF Cons.prems] show ?thesis by simp
    next
      case (Some file_content)
      show ?thesis
      proof (cases "usable_content (Some file_content)")
        case False
        with open_budget Some Cons.IH [OF Cons.prems] show ?thesis by simp
      next
        case True
        define addition where "addition = ?header
          @ extract_relevant_snippet file_content query
              (min 800 (m - cur - int (length ?header) - 10))
          @ [CHR 0x0A, CHR 0x0A]"
        show ?thesis
        proof (cases "cur + int (length addition) \<le> m")
          case fits: True
          have "int (length (ctx @ addition)) = cur + int (length addition)"
            using Cons.prems by simp
          from Cons.IH [OF this]
          have "int (length (strip (build_context store query m results (ctx @ addition)
                   (cur + int (length addition)))))
                  \<le> max (m + 3) (int (length (strip (ctx @ addition))))" .
          moreover have "int (length (strip (ctx @ addition))) \<le> m"
            using length_strip [of "ctx @ addition"] fits Cons.prems by simp
          ultimately have "int (length (strip (build_context store query m results (ctx @ addition)
                   (cur + int (length addition))))) \<le> m + 3" by simp
          moreover have "build_context store query m (result # results) ctx cur
                  = build_context store query m results (ctx @ addition)
                      (cur + int (length addition))"
            using open_budget Some True fits by (simp add: Let_def addition_def)
          ultimately show ?thesis by simp
        next
          case over: False
          show ?thesis
          proof (cases "m - cur > 100")
            case False
            have "build_context store query m (result # results) ctx cur = ctx"
              using open_budget Some True over False by (simp add: Let_def addition_def)
            then show ?thesis by simp
          next
            case room: True
            let ?cut = "ctx @ slice_upto addition (m - cur) @ ''...''"
            have "int (length (slice_upto addition (m - cur))) \<le> m - cur"
              using room by (intro length_slice_upto_le) simp
            then have "int (length ?cut) \<le> m + 3" using Cons.prems by simp
            moreover have "length (strip (?cut @ [CHR 0x0A, CHR 0x0A])) \<le> length ?cut"
              by (rule length_strip_newlines)
            ultimately have "int (length (strip (?cut @ [CHR 0x0A, CHR 0x0A]))) \<le> m + 3"
              by linarith
            moreover have "build_context store query m (result # results) ctx cur
                  = ?cut @ [CHR 0x0A, CHR 0x0A]"
              using open_budget Some True over room by (simp add: Let_def addition_def)
            ultimately show ?thesis by simp
          qed
        qed
      qed
    qed
  qed
qed

lemma strip_context_header: "length (strip context_header) = 30"
  by code_simp

lemma context_length_bound:
  "int (length (get_context_for_query store query m)) \<le> max (m + 3) 30"
proof -
  have "int (length (strip (build_context store query m results context_header
                (int (length context_header))))) \<le> max (m + 3) 30" for results
    using build_context_bound [of context_header "int (length context_header)" store query m results]
    by (simp add: strip_context_header)
  then show ?thesis
    by (simp add: get_context_for_query_def Let_def le_max_iff_disj)
qed

section \<open>Properties of the worker\<close>

text \<open>
  Claim C8. While the worker is busy, \<open>load_models\<close> and \<open>send_message\<close> return false
  (they are total: nothing is raised), record no task and leave the cache as it is: the
  user message is not appended. \<open>load_models\<close> changes nothing at all; \<open>send_message\<close>
  changes nothing but the log of signals, and not even that when a model is selected
  (without a model it emits the error for the missing model).
\<close>

theorem enqueue_while_busy:
  assumes "is_busy w"
  shows "fst (load_models w) = False \<and> snd (load_models w) = w
       \<and> fst (send_message msg ctx now w) = False
       \<and> current_task (snd (send_message msg ctx now w)) = current_task w
       \<and> conversation (snd (send_message msg ctx now w)) = conversation w
       \<and> (snd (send_message msg ctx now w))\<lparr>events := events w\<rparr> = w
       \<and> (model_selected w \<longrightarrow> snd (send_message msg ctx now w) = w)"
  using assms by (simp add: load_models_def send_message_def emit_def)

theorem enqueue_while_busy_witness:
  "is_busy (ready_worker\<lparr>is_busy := True, current_task := None\<rparr>)
   \<and> load_models (ready_worker\<lparr>is_busy := True, current_task := None\<rparr>)
       = (False, ready_worker\<lparr>is_busy := True, current_task := None\<rparr>)
   \<and> send_message ''again'' [] 1 (ready_worker\<lparr>is_busy := True, current_task := None\<rparr>)
       = (False, ready_worker\<lparr>is_busy := True, current_task := None\<rparr>)"
  using enqueue_while_busy [of "ready_worker\<lparr>is_busy := True, current_task := None\<rparr>" "''again''" "[]" 1]
  by (simp add: ready_worker_def load_models_def send_message_def model_selected_def)

text \<open>The stop event stays set once it is set.\<close>

lemma flag_at_mono: "flag_at env i \<Longrightarrow> i \<le> j \<Longrightarrow> flag_at env j"
  by (auto simp: flag_at_def split: option.splits)

text \<open>
  Claim C5. A worker with a selected model, a non-empty cache below its capacity and at
  least one attempt allowed receives, with the stop event never set, a stream whose
  first two lines decode to content \<open>a\<close> with \<open>done\<close> false and content \<open>b\<close> with
  \<open>done\<close> true, followed by any lines. It emits the deltas \<open>a\<close> and \<open>b\<close> in this order,
  then the completion with \<open>ab\<close>, appends the one assistant message \<open>ab\<close> to the cache,
  and has taken two lines from the body: nothing after the line with \<open>done\<close>.
\<close>

theorem two_line_stream:
  assumes "model_selected w"
    and "get_messages (conversation w) \<noteq> []"
    and "int (length (messages (conversation w))) < max_messages (conversation w)"
    and "stop_after env = None"
    and "0 \<le> max_retries w"
    and "post_outcomes env 0 =
           PostStreams (Decoded (Chunk (Some ''a'') False) # Decoded (Chunk (Some ''b'') True) # rest) tail"
  shows "events (handle_send_message env w)
           = events w @ [MessageChunkReceived ''a'', MessageChunkReceived ''b'', MessageCompleted ''ab'']
       \<and> messages (conversation (handle_send_message env w))
           = messages (conversation w) @ [\<lparr>role = ''assistant'', content = ''ab'', timestamp = time_now env\<rparr>]
       \<and> lines_read (handle_send_message env w) = lines_read w + 2
       \<and> posts (handle_send_message env w) = posts w + 1"
proof -
  have nostop: "\<And>x. \<not> stop_requested env x"
    using assms(4) by (simp add: stop_requested_def flag_at_def)
  let ?w1 = "(polled w)\<lparr>rm_state := STREAMING, polls := Suc (Suc (polls w)), posts := Suc (posts w)\<rparr>"
  let ?l2 = "Decoded (Chunk (Some ''b'') True) # rest"
  let ?w2 = "?w1\<lparr>lines_read := Suc (lines_read w), polls := Suc (Suc (Suc (polls w)))\<rparr>"
  have first: "gen_next env chat_stream (polled w)
                 = (Yield (Chunk (Some ''a'') False), GenLines 0 ?l2 tail, ?w2)"
    using assms(5,6) nostop
    by (simp add: gen_next_def chat_stream_def run_attempts.simps [of env 0] begin_attempt_def
        in_stream_def polled_def Let_def)
  let ?w3 = "emit (MessageChunkReceived ''a'') (polled ?w2)"
  let ?w4 = "?w3\<lparr>lines_read := Suc (Suc (lines_read w)), polls := Suc (polls ?w3)\<rparr>"
  have second: "gen_next env (GenLines 0 ?l2 tail) ?w3
                 = (Yield (Chunk (Some ''b'') True), GenLines 0 rest tail, ?w4)"
    using nostop
    by (simp add: gen_next_def in_stream_def polled_def emit_def Let_def)
  have "handle_send_message env w
          = finish env ''ab'' True (emit (MessageChunkReceived ''b'') (polled ?w4))"
    using assms(1,2) nostop first second
    by (simp add: handle_send_message_def consume.simps [of env chat_stream]
        consume.simps [of env "GenLines 0 ?l2 tail"])
  then show ?thesis
    using nostop assms(3)
    by (simp add: finish_def emit_def polled_def add_message_def trim_messages_def)
qed

theorem two_line_stream_witness:
  "events (handle_send_message two_line_env ready_worker)
     = [MessageChunkReceived ''a'', MessageChunkReceived ''b'', MessageCompleted ''ab'']
   \<and> map (\<lambda>m. (role m, content m)) (messages (conversation (handle_send_message two_line_env ready_worker)))
     = [(''user'', ''hi''), (''assistant'', ''ab'')]
   \<and> lines_read (handle_send_message two_line_env ready_worker) = 2"
  using two_line_stream [of ready_worker two_line_env "[Decoded (Chunk (Some ''c'') False)]" None]
  by (simp add: ready_worker_def two_line_env_def model_selected_def get_messages_def)

lemma frame_refl: "frame w w"
  by (simp add: frame_def)

lemma frame_trans: "frame w w1 \<Longrightarrow> frame w1 w2 \<Longrightarrow> frame w w2"
  by (simp add: frame_def)

lemma frame_scan_lines: "scan_lines env ls w = (r, w1) \<Longrightarrow> frame w w1"
proof (induction ls arbitrary: w)
  case Nil
  then show ?case by (simp add: frame_def)
next
  case (Cons l ls)
  let ?w = "polled (w\<lparr>lines_read := Suc (lines_read w)\<rparr>)"
  have f: "frame w ?w" by (simp add: frame_def polled_def)
  show ?case
  proof (cases "stop_requested env w")
    case True
    with Cons.prems show ?thesis by (auto simp: frame_def polled_def Let_def)
  next
    case False
    show ?thesis
    proof (cases l)
      case EmptyLine
      with False Cons.prems have "scan_lines env ls ?w = (r, w1)" by (simp add: Let_def)
      from frame_trans [OF f Cons.IH [OF this]] show ?thesis .
    next
      case Undecodable
      with False Cons.prems have "scan_lines env ls ?w = (r, w1)" by (simp add: Let_def)
      from frame_trans [OF f Cons.IH [OF this]] show ?thesis .
    next
      case (Decoded c)
      with False Cons.prems f show ?thesis by (auto simp: Let_def)
    qed
  qed
qed

lemma frame_after_loop: "after_loop env le w = (r, g, w1) \<Longrightarrow> frame w w1"
  by (auto simp: after_loop_def Let_def frame_def polled_def split: if_splits)

lemma frame_on_failure: "on_failure env a e w = (s, w1) \<Longrightarrow> frame w w1"
  by (auto simp: on_failure_def Let_def leave_def after_loop_def frame_def polled_def
      split: if_splits option.splits)

lemma frame_in_stream:
  assumes "in_stream env a ls t w = (s, w1)"
  shows "frame w w1"
proof -
  obtain r w' where sc: "scan_lines env ls w = (r, w')" by (cases "scan_lines env ls w")
  from frame_scan_lines [OF sc] have f: "frame w w'" .
  show ?thesis
  proof (cases r)
    case (ScanYield c rest)
    with assms sc f show ?thesis by (simp add: in_stream_def)
  next
    case ScanStopped
    with assms sc f show ?thesis by (simp add: in_stream_def)
  next
    case ScanEnd
    show ?thesis
    proof (cases t)
      case None
      with assms sc ScanEnd f show ?thesis by (auto simp: in_stream_def frame_def)
    next
      case (Some e)
      with assms sc ScanEnd have "on_failure env a e w' = (s, w1)" by (simp add: in_stream_def)
      from frame_trans [OF f frame_on_failure [OF this]] show ?thesis .
    qed
  qed
qed

lemma frame_begin_attempt:
  assumes "begin_attempt env a le w = (s, w1)"
  shows "frame w w1"
proof (cases "int a < max_retries w + 1")
  case False
  with assms show ?thesis
    by (auto simp: begin_attempt_def leave_def split: prod.splits dest: frame_after_loop)
next
  case True
  let ?w = "polled (w\<lparr>rm_state := CONNECTING\<rparr>)"
  have f: "frame w ?w" by (simp add: frame_def polled_def)
  show ?thesis
  proof (cases "stop_requested env w")
    case stop: True
    with True assms show ?thesis by (auto simp: begin_attempt_def Let_def frame_def polled_def)
  next
    case nostop: False
    show ?thesis
    proof (cases "post_outcomes env a")
      case (PostRaises e)
      with True nostop assms have "on_failure env a e (?w\<lparr>posts := Suc (posts ?w)\<rparr>) = (s, w1)"
        by (simp add: begin_attempt_def Let_def)
      from frame_on_failure [OF this] show ?thesis by (simp add: frame_def polled_def)
    next
      case (PostStreams ls t)
      with True nostop assms
      have "in_stream env a ls t (?w\<lparr>posts := Suc (posts ?w), rm_state := STREAMING\<rparr>) = (s, w1)"
        by (simp add: begin_attempt_def Let_def)
      from frame_in_stream [OF this] show ?thesis by (simp add: frame_def polled_def)
    qed
  qed
qed

lemma frame_run_attempts: "run_attempts env a le w = (r, g, w1) \<Longrightarrow> frame w w1"
proof (induction env a le w rule: run_attempts.induct)
  case (1 env a le w)
  obtain s w' where b: "begin_attempt env a le w = (s, w')" by (cases "begin_attempt env a le w")
  from frame_begin_attempt [OF b] have f: "frame w w'" .
  show ?case
  proof (cases s)
    case (Leave r' g')
    with b "1.prems" f show ?thesis by (subst (asm) run_attempts.simps) simp
  next
    case (Retry e)
    from "1.prems" b Retry have "run_attempts env (Suc a) (Some e) w' = (r, g, w1)"
      by (subst (asm) run_attempts.simps) simp
    from frame_trans [OF f "1.IH" [OF b [symmetric] Retry this]] show ?thesis .
  qed
qed

lemma frame_gen_next:
  assumes "gen_next env g w = (r, g', w1)"
  shows "frame w w1"
proof (cases g)
  case (GenAttempt a le)
  with assms have "run_attempts env a le w = (r, g', w1)" by (simp add: gen_next_def)
  then show ?thesis by (rule frame_run_attempts)
next
  case (GenLines a ls t)
  obtain s w' where i: "in_stream env a ls t w = (s, w')" by (cases "in_stream env a ls t w")
  from frame_in_stream [OF i] have f: "frame w w'" .
  show ?thesis
  proof (cases s)
    case (Leave r' gg)
    with assms GenLines i f show ?thesis by (simp add: gen_next_def)
  next
    case (Retry e)
    with assms GenLines i have "run_attempts env (Suc a) (Some e) w' = (r, g', w1)"
      by (simp add: gen_next_def)
    from frame_trans [OF f frame_run_attempts [OF this]] show ?thesis .
  qed
next
  case GenClosed
  with assms show ?thesis by (simp add: gen_next_def frame_def)
qed

lemma stopped_run_emit:
  "frame w w1 \<Longrightarrow> stopped_run w (emit GenerationStopped (polled w1))"
  by (auto simp: stopped_run_def frame_def emit_def polled_def intro: exI [of _ "[]"])

lemma stopped_run_delta:
  assumes "frame w w1" and "stopped_run (emit (MessageChunkReceived s) (polled w1)) w'"
  shows "stopped_run w w'"
proof -
  from assms(2) obtain ds where
    "events w' = events (emit (MessageChunkReceived s) (polled w1)) @ map MessageChunkReceived ds @ [GenerationStopped]"
    and c: "conversation w' = conversation (emit (MessageChunkReceived s) (polled w1))"
    by (auto simp: stopped_run_def)
  with assms(1) have "events w' = events w @ map MessageChunkReceived (s # ds) @ [GenerationStopped]"
    by (simp add: frame_def emit_def polled_def)
  moreover from c assms(1) have "conversation w' = conversation w"
    by (simp add: frame_def emit_def polled_def)
  ultimately show ?thesis unfolding stopped_run_def by blast
qed

lemma stopped_run_frame:
  "frame w w1 \<Longrightarrow> stopped_run (polled w1) w' \<Longrightarrow> stopped_run w w'"
  by (auto simp: stopped_run_def frame_def polled_def)

lemma finish_stopped:
  "frame w w1 \<Longrightarrow> last_read_set env (finish env full started w1)
     \<Longrightarrow> stopped_run w (finish env full started w1)"
  by (auto simp: finish_def last_read_set_def stop_requested_def emit_def polled_def
      stopped_run_def frame_def intro: exI [of _ "[]"] split: if_splits)

lemma stop_or_error_stopped:
  "frame w w1 \<Longrightarrow> last_read_set env (stop_or_error env err w1)
     \<Longrightarrow> stopped_run w (stop_or_error env err w1)"
  by (auto simp: stop_or_error_def last_read_set_def stop_requested_def emit_def polled_def
      stopped_run_def frame_def intro: exI [of _ "[]"] split: if_splits)

lemma frame_polled: "frame w w1 \<Longrightarrow> frame w (polled w1)"
  by (simp add: frame_def polled_def)

lemma frame_emit_polled: "frame (emit e (polled w)) (emit e (polled w))"
  by (rule frame_refl)

lemma consume_stopped:
  "last_read_set env (consume env g full started w)
     \<Longrightarrow> stopped_run w (consume env g full started w)"
proof (induction env g full started w rule: consume.induct)
  case (1 env g full started w)
  obtain r g' w1 where gn: "gen_next env g w = (r, g', w1)" by (cases "gen_next env g w") auto
  from frame_gen_next [OF gn] have f: "frame w w1" .
  note unfold = consume.simps [of env g full started w]
  show ?case
  proof (cases r)
    case (Raise err)
    with gn "1.prems" f show ?thesis by (simp add: unfold stop_or_error_stopped)
  next
    case StopIteration
    with gn "1.prems" f show ?thesis by (simp add: unfold finish_stopped)
  next
    case (Yield c)
    show ?thesis
    proof (cases "stop_requested env w1")
      case True
      with gn Yield f show ?thesis by (simp add: unfold stopped_run_emit)
    next
      case nostop: False
      show ?thesis
      proof (cases c)
        case Unreadable
        with gn Yield nostop "1.prems" frame_polled [OF f] show ?thesis
          by (simp add: unfold stop_or_error_stopped)
      next
        case (Chunk co dn)
        show ?thesis
        proof (cases co)
          case None
          show ?thesis
          proof (cases dn)
            case True
            with gn Yield nostop Chunk None "1.prems" frame_polled [OF f] show ?thesis
              by (simp add: unfold finish_stopped)
          next
            case False
            with gn Yield nostop Chunk None "1.prems"
            have p: "last_read_set env (consume env g' full True (polled w1))"
              by (simp add: unfold)
            from "1.IH"(1) [OF gn [symmetric] Yield refl nostop Chunk None False p]
            have "stopped_run (polled w1) (consume env g' full True (polled w1))" .
            from stopped_run_frame [OF f this] gn Yield nostop Chunk None False show ?thesis
              by (simp add: unfold)
          qed
        next
          case (Some s)
          show ?thesis
          proof (cases "s \<noteq> []")
            case nonempty: True
            show ?thesis
            proof (cases dn)
              case True
              have "stopped_run (emit (MessageChunkReceived s) (polled w1))
                      (finish env (full @ s) True (emit (MessageChunkReceived s) (polled w1)))"
                using gn Yield nostop Chunk Some nonempty True "1.prems"
                by (intro finish_stopped frame_refl) (simp add: unfold)
              from stopped_run_delta [OF f this] gn Yield nostop Chunk Some nonempty True
              show ?thesis by (simp add: unfold)
            next
              case False
              with gn Yield nostop Chunk Some nonempty "1.prems"
              have p: "last_read_set env
                         (consume env g' (full @ s) True (emit (MessageChunkReceived s) (polled w1)))"
                by (simp add: unfold)
              from "1.IH"(2) [OF gn [symmetric] Yield refl nostop Chunk Some nonempty False p]
              have "stopped_run (emit (MessageChunkReceived s) (polled w1))
                      (consume env g' (full @ s) True (emit (MessageChunkReceived s) (polled w1)))" .
              from stopped_run_delta [OF f this] gn Yield nostop Chunk Some nonempty False
              show ?thesis by (simp add: unfold)
            qed
          next
            case empty: False
            show ?thesis
            proof (cases dn)
              case True
              with gn Yield nostop Chunk Some empty "1.prems" frame_polled [OF f] show ?thesis
                by (simp add: unfold finish_stopped)
            next
              case False
              with gn Yield nostop Chunk Some empty "1.prems"
              have p: "last_read_set env (consume env g' full True (polled w1))"
                by (simp add: unfold)
              from "1.IH"(3) [OF gn [symmetric] Yield refl nostop Chunk Some _ False p] empty
              have "stopped_run (polled w1) (consume env g' full True (polled w1))" by simp
              from stopped_run_frame [OF f this] gn Yield nostop Chunk Some empty False show ?thesis
                by (simp add: unfold)
            qed
          qed
        qed
      qed
    qed
  qed
qed

text \<open>
  With the stop event set by the second read of the generator, the first \<open>next\<close> on it
  ends the iteration.
\<close>

lemma gen_next_stops_early:
  assumes "0 \<le> max_retries w0" and "flag_at env (Suc (polls w0))"
  shows "\<exists>g' w1. gen_next env chat_stream w0 = (StopIteration, g', w1) \<and> Suc (polls w0) \<le> polls w1"
proof (cases "stop_requested env w0")
  case True
  with assms(1) show ?thesis
    by (simp add: gen_next_def chat_stream_def run_attempts.simps [of env 0] begin_attempt_def
        Let_def polled_def)
next
  case False
  let ?w = "(polled (w0\<lparr>rm_state := CONNECTING\<rparr>))\<lparr>posts := Suc (posts w0)\<rparr>"
  have set: "stop_requested env (?w\<lparr>rm_state := s\<rparr>)" "stop_requested env ?w" for s
    using assms(2) by (simp_all add: stop_requested_def polled_def)
  show ?thesis
  proof (cases "post_outcomes env 0")
    case (PostRaises e)
    with False assms(1) set show ?thesis
      by (simp add: gen_next_def chat_stream_def run_attempts.simps [of env 0] begin_attempt_def
          on_failure_def Let_def polled_def)
  next
    case (PostStreams ls t)
    show ?thesis
    proof (cases ls)
      case Nil
      show ?thesis
      proof (cases t)
        case None
        with False assms(1) PostStreams Nil show ?thesis
          by (simp add: gen_next_def chat_stream_def run_attempts.simps [of env 0]
              begin_attempt_def in_stream_def Let_def polled_def)
      next
        case (Some e)
        with False assms(1) PostStreams Nil set show ?thesis
          by (simp add: gen_next_def chat_stream_def run_attempts.simps [of env 0]
              begin_attempt_def in_stream_def on_failure_def Let_def polled_def)
      qed
    next
      case (Cons l rest)
      with False assms(1) PostStreams set show ?thesis
        by (simp add: gen_next_def chat_stream_def run_attempts.simps [of env 0]
            begin_attempt_def in_stream_def Let_def polled_def)
    qed
  qed
qed

lemma last_read_clear_frame:
  "frame w w' \<Longrightarrow> last_read_clear env w' w1 \<Longrightarrow> last_read_clear env w w1"
  by (simp add: frame_def last_read_clear_def)

lemma scan_lines_clear:
  "scan_lines env ls w = (ScanYield c rest, w1) \<Longrightarrow> last_read_clear env w w1"
proof (induction ls arbitrary: w)
  case Nil
  then show ?case by simp
next
  case (Cons l ls)
  let ?w = "polled (w\<lparr>lines_read := Suc (lines_read w)\<rparr>)"
  have f: "frame w ?w" by (simp add: frame_def polled_def)
  from Cons.prems have nostop: "\<not> stop_requested env w"
    by (auto simp: Let_def split: if_splits)
  show ?case
  proof (cases l)
    case EmptyLine
    with nostop Cons.prems have "scan_lines env ls ?w = (ScanYield c rest, w1)"
      by (simp add: Let_def)
    from last_read_clear_frame [OF f Cons.IH [OF this]] show ?thesis .
  next
    case Undecodable
    with nostop Cons.prems have "scan_lines env ls ?w = (ScanYield c rest, w1)"
      by (simp add: Let_def)
    from last_read_clear_frame [OF f Cons.IH [OF this]] show ?thesis .
  next
    case (Decoded d)
    with nostop Cons.prems show ?thesis
      by (auto simp: Let_def last_read_clear_def polled_def stop_requested_def)
  qed
qed

lemma after_loop_clear:
  "after_loop env le w = (r, g, w1) \<Longrightarrow> r \<noteq> StopIteration \<Longrightarrow> last_read_clear env w w1"
  by (auto simp: after_loop_def Let_def last_read_clear_def polled_def stop_requested_def
      split: if_splits)

lemma on_failure_clear:
  "on_failure env a e w = (Leave r g, w1) \<Longrightarrow> r \<noteq> StopIteration \<Longrightarrow> last_read_clear env w w1"
  by (auto simp: on_failure_def after_loop_def leave_def Let_def last_read_clear_def polled_def
      stop_requested_def split: if_splits option.splits)

lemma in_stream_clear:
  assumes "in_stream env a ls t w = (Leave r g, w1)" and "r \<noteq> StopIteration"
  shows "last_read_clear env w w1"
proof -
  obtain sc w' where sc: "scan_lines env ls w = (sc, w')" by (cases "scan_lines env ls w")
  from frame_scan_lines [OF sc] have f: "frame w w'" .
  show ?thesis
  proof (cases sc)
    case (ScanYield c rest)
    with assms sc have "scan_lines env ls w = (ScanYield c rest, w1)" by (simp add: in_stream_def)
    then show ?thesis by (rule scan_lines_clear)
  next
    case ScanStopped
    with assms sc show ?thesis by (simp add: in_stream_def)
  next
    case ScanEnd
    show ?thesis
    proof (cases t)
      case None
      with assms sc ScanEnd show ?thesis by (simp add: in_stream_def)
    next
      case (Some e)
      with assms sc ScanEnd have "on_failure env a e w' = (Leave r g, w1)"
        by (simp add: in_stream_def)
      from last_read_clear_frame [OF f on_failure_clear [OF this assms(2)]] show ?thesis .
    qed
  qed
qed

lemma begin_attempt_clear:
  assumes "begin_attempt env a le w = (Leave r g, w1)" and "r \<noteq> StopIteration"
  shows "last_read_clear env w w1"
proof (cases "int a < max_retries w + 1")
  case False
  with assms(1) have "after_loop env le w = (r, g, w1)"
    by (auto simp: begin_attempt_def leave_def split: prod.splits)
  from after_loop_clear [OF this assms(2)] show ?thesis .
next
  case True
  let ?w = "polled (w\<lparr>rm_state := CONNECTING\<rparr>)"
  have f: "frame w (?w\<lparr>posts := Suc (posts ?w)\<rparr>)"
    "frame w (?w\<lparr>posts := Suc (posts ?w), rm_state := STREAMING\<rparr>)"
    by (simp_all add: frame_def polled_def)
  from True assms have nostop: "\<not> stop_requested env w"
    by (auto simp: begin_attempt_def Let_def split: if_splits)
  show ?thesis
  proof (cases "post_outcomes env a")
    case (PostRaises e)
    with True nostop assms(1)
    have "on_failure env a e (?w\<lparr>posts := Suc (posts ?w)\<rparr>) = (Leave r g, w1)"
      by (simp add: begin_attempt_def Let_def)
    from last_read_clear_frame [OF f(1) on_failure_clear [OF this assms(2)]] show ?thesis .
  next
    case (PostStreams ls t)
    with True nostop assms(1)
    have "in_stream env a ls t (?w\<lparr>posts := Suc (posts ?w), rm_state := STREAMING\<rparr>)
            = (Leave r g, w1)"
      by (simp add: begin_attempt_def Let_def)
    from last_read_clear_frame [OF f(2) in_stream_clear [OF this assms(2)]] show ?thesis .
  qed
qed

lemma run_attempts_clear:
  "run_attempts env a le w = (r, g, w1) \<Longrightarrow> r \<noteq> StopIteration \<Longrightarrow> last_read_clear env w w1"
proof (induction env a le w rule: run_attempts.induct)
  case (1 env a le w)
  obtain s w' where b: "begin_attempt env a le w = (s, w')" by (cases "begin_attempt env a le w")
  from frame_begin_attempt [OF b] have f: "frame w w'" .
  show ?case
  proof (cases s)
    case (Leave r' g')
    with b "1.prems"(1) have "begin_attempt env a le w = (Leave r g, w1)"
      by (subst (asm) run_attempts.simps) simp
    from begin_attempt_clear [OF this "1.prems"(2)] show ?thesis .
  next
    case (Retry e)
    from "1.prems"(1) b Retry have "run_attempts env (Suc a) (Some e) w' = (r, g, w1)"
      by (subst (asm) run_attempts.simps) simp
    from last_read_clear_frame [OF f "1.IH" [OF b [symmetric] Retry this "1.prems"(2)]]
    show ?thesis .
  qed
qed

lemma gen_next_clear:
  assumes "gen_next env g w = (r, g', w1)" and "r \<noteq> StopIteration"
  shows "last_read_clear env w w1"
proof (cases g)
  case (GenAttempt a le)
  with assms(1) have "run_attempts env a le w = (r, g', w1)" by (simp add: gen_next_def)
  from run_attempts_clear [OF this assms(2)] show ?thesis .
next
  case (GenLines a ls t)
  obtain s w' where i: "in_stream env a ls t w = (s, w')" by (cases "in_stream env a ls t w")
  from frame_in_stream [OF i] have f: "frame w w'" .
  show ?thesis
  proof (cases s)
    case (Leave r' gg)
    with assms(1) GenLines i have "in_stream env a ls t w = (Leave r g', w1)"
      by (simp add: gen_next_def)
    from in_stream_clear [OF this assms(2)] show ?thesis .
  next
    case (Retry e)
    with assms(1) GenLines i have "run_attempts env (Suc a) (Some e) w' = (r, g', w1)"
      by (simp add: gen_next_def)
    from last_read_clear_frame [OF f run_attempts_clear [OF this assms(2)]] show ?thesis .
  qed
next
  case GenClosed
  with assms show ?thesis by (simp add: gen_next_def)
qed

text \<open>
  Claim C4. A worker with a selected model and a non-empty cache runs a send-message
  task, and the stop event is set before \<open>chat_stream\<close> hands over a first chunk: the last
  read of the event that \<open>chat_stream\<close> makes before its first result sees it set (a stop
  before the task starts, before the connection, while a failed attempt backs off, or
  on the blank and undecodable lines before the first chunk), or the stream ends with no
  chunk at all and the read of the worker after its loop sees the event set. Then
  \<open>chat_stream\<close> ends without a chunk and without raising, and the worker emits the
  stopped signal and nothing else; the cache is as it was.
\<close>

theorem cancel_before_first_chunk:
  assumes "model_selected w"
    and "get_messages (conversation w) \<noteq> []"
    and "gen_next env chat_stream (polled w) = (r, g, w1)"
    and "flag_at env (polls w1 - 1) \<or> r = StopIteration \<and> flag_at env (polls w1)"
  shows "r = StopIteration
       \<and> events (handle_send_message env w) = events w @ [GenerationStopped]
       \<and> conversation (handle_send_message env w) = conversation w"
proof -
  have stop: "r = StopIteration"
  proof (rule ccontr)
    assume "r \<noteq> StopIteration"
    with gen_next_clear [OF assms(3)] assms(4) show False by (simp add: last_read_clear_def)
  qed
  have "flag_at env (polls w1)"
    using assms(4) by (auto intro: flag_at_mono)
  then have fin: "finish env [] False w1 = emit GenerationStopped (polled w1)"
    by (simp add: finish_def stop_requested_def)
  from frame_gen_next [OF assms(3)] have f: "frame (polled w) w1" .
  show ?thesis
  proof (cases "stop_requested env w")
    case True
    with assms(1) stop show ?thesis
      by (simp add: handle_send_message_def emit_def polled_def)
  next
    case False
    with assms(1,2,3) stop fin have "handle_send_message env w = emit GenerationStopped (polled w1)"
      by (simp add: handle_send_message_def consume.simps [of env chat_stream])
    with f stop show ?thesis by (simp add: frame_def emit_def polled_def)
  qed
qed

lemma blank_line_run:
  "fst (gen_next blank_line_env chat_stream (polled ready_worker)) = StopIteration
   \<and> polls (snd (snd (gen_next blank_line_env chat_stream (polled ready_worker)))) = 4
   \<and> lines_read (snd (snd (gen_next blank_line_env chat_stream (polled ready_worker)))) = 2"
  by code_simp

theorem cancel_before_first_chunk_witness:
  "model_selected ready_worker \<and> get_messages (conversation ready_worker) \<noteq> []
   \<and> \<not> flag_at blank_line_env (polls ready_worker + 2)
   \<and> flag_at blank_line_env
        (polls (snd (snd (gen_next blank_line_env chat_stream (polled ready_worker)))) - 1)
   \<and> fst (gen_next blank_line_env chat_stream (polled ready_worker)) = StopIteration
   \<and> events (handle_send_message blank_line_env ready_worker) = [GenerationStopped]"
  using cancel_before_first_chunk [of ready_worker blank_line_env
      "fst (gen_next blank_line_env chat_stream (polled ready_worker))"
      "fst (snd (gen_next blank_line_env chat_stream (polled ready_worker)))"
      "snd (snd (gen_next blank_line_env chat_stream (polled ready_worker)))"]
    blank_line_run
  by (simp add: ready_worker_def blank_line_env_def model_selected_def get_messages_def flag_at_def)

text \<open>
  In particular: with at least one attempt allowed and the stop event set by the third
  read of the task (the read before starting, the read before connecting, the first read
  after the POST), the worker emits the stopped signal only.
\<close>

lemma cancel_by_third_read:
  assumes "model_selected w"
    and "get_messages (conversation w) \<noteq> []"
    and "0 \<le> max_retries w"
    and "flag_at env (polls w + 2)"
  shows "fst (gen_next env chat_stream (polled w)) = StopIteration
       \<and> events (handle_send_message env w) = events w @ [GenerationStopped]
       \<and> conversation (handle_send_message env w) = conversation w"
proof -
  have "0 \<le> max_retries (polled w)" "flag_at env (Suc (polls (polled w)))"
    using assms(3,4) by (simp_all add: polled_def)
  from gen_next_stops_early [OF this] obtain g' w1
    where gn: "gen_next env chat_stream (polled w) = (StopIteration, g', w1)"
      and p: "Suc (polls (polled w)) \<le> polls w1" by blast
  from frame_gen_next [OF gn] have f: "frame (polled w) w1" .
  from p have "polls w + 2 \<le> polls w1" by (simp add: polled_def)
  with assms(4) have "flag_at env (polls w1)" by (rule flag_at_mono)
  then have fin: "finish env [] False w1 = emit GenerationStopped (polled w1)"
    by (simp add: finish_def stop_requested_def)
  show ?thesis
  proof (cases "stop_requested env w")
    case True
    with assms(1) gn show ?thesis
      by (simp add: handle_send_message_def emit_def polled_def)
  next
    case False
    with assms(1,2) gn fin have "handle_send_message env w = emit GenerationStopped (polled w1)"
      by (simp add: handle_send_message_def consume.simps [of env chat_stream])
    with f gn show ?thesis by (simp add: frame_def emit_def polled_def)
  qed
qed

text \<open>
  Claim C7. If any read of the stop event made during a send-message task sees it set
  (\<open>i\<close> is the index of such a read), the worker emits content deltas and then the
  stopped signal, no error and no completion, and the cache is as it was before the
  task: no assistant message is appended.
\<close>

theorem cancellation_leaves_cache:
  assumes "polls w \<le> i" and "i < polls (handle_send_message env w)" and "flag_at env i"
  shows "(\<exists>ds. events (handle_send_message env w)
                 = events w @ map MessageChunkReceived ds @ [GenerationStopped])
       \<and> conversation (handle_send_message env w) = conversation w"
proof -
  from assms(2,3) have last: "last_read_set env (handle_send_message env w)"
    by (auto simp: last_read_set_def intro: flag_at_mono)
  have "stopped_run w (handle_send_message env w)"
  proof (cases "model_selected w")
    case False
    with assms(1,2) show ?thesis by (simp add: handle_send_message_def emit_def)
  next
    case True
    show ?thesis
    proof (cases "stop_requested env w")
      case stop: True
      with True stopped_run_emit [OF frame_refl, of w] show ?thesis
        by (simp add: handle_send_message_def)
    next
      case nostop: False
      show ?thesis
      proof (cases "get_messages (conversation w) = []")
        case empty: True
        with True nostop last show ?thesis
          by (simp add: handle_send_message_def last_read_set_def emit_def polled_def
              stop_requested_def)
      next
        case False
        with True nostop last
        have "last_read_set env (consume env chat_stream [] False (polled w))"
          by (simp add: handle_send_message_def)
        from stopped_run_frame [OF frame_refl consume_stopped [OF this]] True nostop False
        show ?thesis by (simp add: handle_send_message_def)
      qed
    qed
  qed
  then show ?thesis by (simp add: stopped_run_def)
qed

lemma stopping_run:
  "events (handle_send_message stopping_env ready_worker)
     = [MessageChunkReceived ''a'', GenerationStopped]
   \<and> polls (handle_send_message stopping_env ready_worker) = 6"
  by code_simp

theorem cancellation_leaves_cache_witness:
  "polls ready_worker \<le> 5 \<and> flag_at stopping_env 5
   \<and> events (handle_send_message stopping_env ready_worker)
       = [MessageChunkReceived ''a'', GenerationStopped]
   \<and> conversation (handle_send_message stopping_env ready_worker) = conversation ready_worker"
  using cancellation_leaves_cache [of ready_worker 5 stopping_env] stopping_run
  by (simp add: ready_worker_def stopping_env_def two_line_env_def flag_at_def)

end
